theory Spec2Isabelle
  imports Main
begin

section \<open>JavaScript values of the device twin\<close>

text \<open>
  The device twin is a JSON document. Its values are modelled by the JSON fragment of
  JavaScript values plus \<open>undefined\<close> (what a handler without a \<open>return\<close> yields and
  what reading an absent property gives). Strings are lists of characters, one
  \<open>char\<close> per code unit. An object is the list of its own enumerable properties in
  the order in which \<open>Object.entries\<close> enumerates them.

  The code never calculates with a number of the twin: it prints it, tests whether it
  is truthy, and passes it on. A number is therefore represented by the text that
  \<open>String(n)\<close> gives for it, such as \<open>21\<close>, \<open>21.5\<close>, \<open>-3\<close>, \<open>1e+21\<close> or \<open>NaN\<close>;
  different numbers have different texts, except that negative zero prints as \<open>0\<close>
  too. The literals \<open>200\<close> and \<open>400\<close> of the code are \<open>JNum ''200''\<close> and
  \<open>JNum ''400''\<close>.
\<close>

datatype jsval =
    JUndefined
  | JNull
  | JBool bool
  | JNum string
  | JStr string
  | JArr "jsval list"
  | JObj "(string \<times> jsval) list"

type_synonym props = "(string \<times> jsval) list"

text \<open>Errors: every \<open>throw\<close> and every rejected promise of the source is a value.\<close>

datatype error =
    TypeError
  | NoModelIdAssignedError string
  | Thrown jsval

subsection \<open>Decimal numerals and \<open>String(value)\<close>\<close>

definition digit_char :: "nat \<Rightarrow> char" where
  "digit_char d = ''0123456789'' ! d"

function show_nat :: "nat \<Rightarrow> string" where
  "show_nat n = (if n < 10 then [digit_char n] else show_nat (n div 10) @ [digit_char (n mod 10)])"
  by pat_completeness auto
termination
  by (relation "measure id") auto

declare show_nat.simps [simp del]

fun join_with :: "string \<Rightarrow> string list \<Rightarrow> string" where
  "join_with sep [] = []"
| "join_with sep [s] = s"
| "join_with sep (s # t # r) = s @ sep @ join_with sep (t # r)"

fun sequence_results :: "(error + 'a) list \<Rightarrow> error + 'a list" where
  "sequence_results [] = Inr []"
| "sequence_results (r # rs) =
     (case r of
        Inl e \<Rightarrow> Inl e
      | Inr x \<Rightarrow> (case sequence_results rs of Inl e \<Rightarrow> Inl e | Inr xs \<Rightarrow> Inr (x # xs)))"

text \<open>
  The string that a template literal \<open>`${ v }`\<close> inserts for a value. An object is
  converted by its \<open>toString\<close> method. A plain object inherits the one that answers
  \<open>[object Object]\<close>; but when the object has an own property named \<open>toString\<close>, that
  property (a JSON value, so not callable) hides the method, the inherited \<open>valueOf\<close>
  gives back the object itself, and the conversion throws a \<open>TypeError\<close>. An array is
  joined as \<open>Array.prototype.join\<close> does, its \<open>null\<close> and \<open>undefined\<close> elements as the
  empty string and its other elements converted in turn, so that the first element
  whose conversion throws makes the whole conversion throw.
\<close>

fun to_string :: "jsval \<Rightarrow> error + string" where
  "to_string JUndefined = Inr ''undefined''"
| "to_string JNull = Inr ''null''"
| "to_string (JBool b) = Inr (if b then ''true'' else ''false'')"
| "to_string (JNum text) = Inr text"
| "to_string (JStr s) = Inr s"
| "to_string (JArr xs) =
     (case sequence_results
             (map (\<lambda>x. if x = JNull \<or> x = JUndefined then Inr [] else to_string x) xs) of
        Inl e \<Rightarrow> Inl e
      | Inr parts \<Rightarrow> Inr (join_with '','' parts))"
| "to_string (JObj kvs) =
     (if map_of kvs ''toString'' \<noteq> None then Inl TypeError else Inr ''[object Object]'')"

fun truthy :: "jsval \<Rightarrow> bool" where
  "truthy JUndefined = False"
| "truthy JNull = False"
| "truthy (JBool b) = b"
| "truthy (JNum text) = (text \<noteq> ''0'' \<and> text \<noteq> ''NaN'')"
| "truthy (JStr s) = (s \<noteq> [])"
| "truthy (JArr xs) = True"
| "truthy (JObj kvs) = True"

fun typeof :: "jsval \<Rightarrow> string" where
  "typeof JUndefined = ''undefined''"
| "typeof JNull = ''object''"
| "typeof (JBool b) = ''boolean''"
| "typeof (JNum text) = ''number''"
| "typeof (JStr s) = ''string''"
| "typeof (JArr xs) = ''object''"
| "typeof (JObj kvs) = ''object''"

subsection \<open>Property order of objects\<close>

text \<open>
  An ordinary object enumerates its array-index keys (canonical decimal numerals below
  \<open>2^32 - 1\<close>) first, in ascending numeric order, and its other string keys after them in
  the order of their creation. \<open>array_index\<close> recognises the first kind.
\<close>

definition digit_value :: "char \<Rightarrow> nat option" where
  "digit_value c =
     map_of [(CHR ''0'', 0), (CHR ''1'', 1), (CHR ''2'', 2), (CHR ''3'', 3), (CHR ''4'', 4),
             (CHR ''5'', 5), (CHR ''6'', 6), (CHR ''7'', 7), (CHR ''8'', 8), (CHR ''9'', 9)] c"

fun read_digits :: "nat \<Rightarrow> string \<Rightarrow> nat option" where
  "read_digits acc [] = Some acc"
| "read_digits acc (c # cs) =
     (case digit_value c of None \<Rightarrow> None | Some d \<Rightarrow> read_digits (10 * acc + d) cs)"

definition array_index :: "string \<Rightarrow> nat option" where
  "array_index k =
     (if k = [] then None
      else if hd k = CHR ''0'' \<and> tl k \<noteq> [] then None
      else case read_digits 0 k of
             None \<Rightarrow> None
           | Some n \<Rightarrow> if n < 4294967295 then Some n else None)"

fun replace_value :: "string \<Rightarrow> jsval \<Rightarrow> props \<Rightarrow> props" where
  "replace_value k v [] = []"
| "replace_value k v ((k', v') # r) =
     (if k' = k then (k, v) # r else (k', v') # replace_value k v r)"

fun insert_index :: "nat \<Rightarrow> string \<Rightarrow> jsval \<Rightarrow> props \<Rightarrow> props" where
  "insert_index n k v [] = [(k, v)]"
| "insert_index n k v ((k', v') # r) =
     (case array_index k' of
        Some m \<Rightarrow> if m < n then (k', v') # insert_index n k v r else (k, v) # (k', v') # r
      | None \<Rightarrow> (k, v) # (k', v') # r)"

text \<open>
  \<open>obj[k] = v\<close> on a plain object (also what an object literal and a spread do for each
  property): an existing key keeps its place and takes the new value; a new key is
  placed where the enumeration order puts it.
\<close>

definition obj_set :: "string \<Rightarrow> jsval \<Rightarrow> props \<Rightarrow> props" where
  "obj_set k v ps =
     (case map_of ps k of
        Some old \<Rightarrow> replace_value k v ps
      | None \<Rightarrow>
          (case array_index k of
             Some n \<Rightarrow> insert_index n k v ps
           | None \<Rightarrow> ps @ [(k, v)]))"

definition assign_all :: "props \<Rightarrow> props \<Rightarrow> props" where
  "assign_all target source = foldl (\<lambda>acc (k, v). obj_set k v acc) target source"

text \<open>
  The keys of a list of properties are in enumeration order when they are distinct, no
  array index follows another kind of key, and the array indices ascend. Every object
  that JavaScript hands to the code satisfies this.
\<close>

definition key_before :: "string \<Rightarrow> string \<Rightarrow> bool" where
  "key_before a b =
     (case array_index a of
        Some m \<Rightarrow> (case array_index b of Some n \<Rightarrow> m < n | None \<Rightarrow> True)
      | None \<Rightarrow> (case array_index b of Some n \<Rightarrow> False | None \<Rightarrow> True))"

definition wf_props :: "props \<Rightarrow> bool" where
  "wf_props ps = (distinct (map fst ps) \<and> sorted_wrt key_before (map fst ps))"

subsection \<open>\<open>Object.entries\<close>, \<open>Object.fromEntries\<close>, spread and property reads\<close>

fun indexed_from :: "nat \<Rightarrow> jsval list \<Rightarrow> props" where
  "indexed_from i [] = []"
| "indexed_from i (x # xs) = (show_nat i, x) # indexed_from (Suc i) xs"

text \<open>
  The own enumerable string-keyed properties of a value, as an object spread
  \<open>{...v}\<close> copies them: none for \<open>undefined\<close>, \<open>null\<close>, booleans and numbers, the indexed
  characters of a string, the indexed elements of an array.
\<close>

fun own_entries :: "jsval \<Rightarrow> props" where
  "own_entries (JObj kvs) = kvs"
| "own_entries (JArr xs) = indexed_from 0 xs"
| "own_entries (JStr s) = indexed_from 0 (map (\<lambda>c. JStr [c]) s)"
| "own_entries v = []"

definition Object_entries :: "jsval \<Rightarrow> error + props" where
  "Object_entries v = (if v = JNull \<or> v = JUndefined then Inl TypeError else Inr (own_entries v))"

definition Object_fromEntries :: "props \<Rightarrow> jsval" where
  "Object_fromEntries es = JObj (assign_all [] es)"

definition startsWith :: "string \<Rightarrow> string \<Rightarrow> bool" where
  "startsWith s p = (take (length p) s = p)"

text \<open>
  \<open>k in v\<close>: a \<open>TypeError\<close> unless \<open>v\<close> is an object. The objects of the twin are plain
  JSON objects and arrays; for them the own keys decide (for an array also
  \<open>length\<close>), as the prototypes hold none of the names the code asks for.
\<close>

fun in_op :: "string \<Rightarrow> jsval \<Rightarrow> error + bool" where
  "in_op k (JObj kvs) = Inr (map_of kvs k \<noteq> None)"
| "in_op k (JArr xs) =
     Inr (k = ''length'' \<or> (case array_index k of Some i \<Rightarrow> i < length xs | None \<Rightarrow> False))"
| "in_op k v = Inl TypeError"

text \<open>\<open>a && b\<close> on booleans, where evaluating either side may throw.\<close>

definition and_then :: "error + bool \<Rightarrow> error + bool \<Rightarrow> error + bool" where
  "and_then a b = (case a of Inl e \<Rightarrow> Inl e | Inr x \<Rightarrow> if x then b else Inr False)"

section \<open>Twin codec and acknowledgement recogniser\<close>

text \<open>
  Modelled from the spec: the constant \<open>TWIN_VERSION_KEY\<close> of the markers module, which
  is not among the sources. The spec's scenario writes the version of a notification
  under the key \<open>$version\<close>.
\<close>

definition TWIN_VERSION_KEY :: string where
  "TWIN_VERSION_KEY = ''$version''"

text \<open>
  The other two constants of the markers module, the key of the component marker and
  the marker object that is spread into every component patch, are parameters of the
  model.
\<close>

record markers =
  TWIN_COMPONENT_MARKER_KEY :: string
  TWIN_COMPONENT_MARKER :: props

definition is_twin_meta :: "markers \<Rightarrow> string \<Rightarrow> bool" where
  "is_twin_meta mk key =
     (\<not> (key \<noteq> TWIN_VERSION_KEY
         \<and> key \<noteq> TWIN_COMPONENT_MARKER_KEY mk
         \<and> key \<noteq> ''update''
         \<and> \<not> startsWith key ''$''))"

definition filterTwinMeta :: "markers \<Rightarrow> jsval \<Rightarrow> props" where
  "filterTwinMeta mk delta =
     filter (\<lambda>(key, value). \<not> is_twin_meta mk key)
       (own_entries (if truthy delta then delta else JObj []))"

definition isWritablePropertyResponse :: "jsval \<Rightarrow> error + bool" where
  "isWritablePropertyResponse propertyValue =
     and_then (Inr (typeof propertyValue = ''object''))
       (and_then (in_op ''ac'' propertyValue)
         (and_then (in_op ''ad'' propertyValue)
           (and_then (in_op ''av'' propertyValue)
             (in_op ''value'' propertyValue))))"

text \<open>
  \<open>v[k]\<close>: reading a property; \<open>undefined\<close> when the value has no such property.
  Only own properties are looked up: a key that names a member of \<open>Object.prototype\<close>
  (such as \<open>constructor\<close>), which the code would find by inheritance, is outside the
  model.
\<close>

fun get_prop :: "jsval \<Rightarrow> string \<Rightarrow> error + jsval" where
  "get_prop JNull k = Inl TypeError"
| "get_prop JUndefined k = Inl TypeError"
| "get_prop (JObj kvs) k = Inr (case map_of kvs k of Some v \<Rightarrow> v | None \<Rightarrow> JUndefined)"
| "get_prop (JArr xs) k =
     Inr (if k = ''length'' then JNum (show_nat (length xs))
          else case array_index k of
                 Some i \<Rightarrow> if i < length xs then xs ! i else JUndefined
               | None \<Rightarrow> JUndefined)"
| "get_prop (JStr s) k =
     Inr (if k = ''length'' then JNum (show_nat (length s))
          else case array_index k of
                 Some i \<Rightarrow> if i < length s then JStr [s ! i] else JUndefined
               | None \<Rightarrow> JUndefined)"
| "get_prop v k = Inr JUndefined"

definition normalizeWritablePropertyAck :: "jsval \<Rightarrow> error + jsval" where
  "normalizeWritablePropertyAck prop =
     (case isWritablePropertyResponse prop of
        Inl e \<Rightarrow> Inl e
      | Inr b \<Rightarrow> if b then get_prop prop ''value'' else Inr prop)"

fun map_entries :: "(jsval \<Rightarrow> error + jsval) \<Rightarrow> props \<Rightarrow> error + props" where
  "map_entries f [] = Inr []"
| "map_entries f ((k, v) # r) =
     (case f v of
        Inl e \<Rightarrow> Inl e
      | Inr v' \<Rightarrow> (case map_entries f r of Inl e \<Rightarrow> Inl e | Inr r' \<Rightarrow> Inr ((k, v') # r')))"

definition normalizeComponentState :: "markers \<Rightarrow> jsval \<Rightarrow> error + jsval" where
  "normalizeComponentState mk delta =
     (case Object_entries delta of
        Inl e \<Rightarrow> Inl e
      | Inr es \<Rightarrow>
          (case map_entries normalizeWritablePropertyAck
                  (filter (\<lambda>(key, value).
                       key \<noteq> TWIN_VERSION_KEY
                     \<and> key \<noteq> TWIN_COMPONENT_MARKER_KEY mk
                     \<and> key \<noteq> ''update'') es) of
             Inl e \<Rightarrow> Inl e
           | Inr es' \<Rightarrow> Inr (Object_fromEntries es')))"

section \<open>The device client: registry, handlers and dispatch\<close>

text \<open>
  A user handler is a function of its two arguments to the outcome of awaiting it:
  \<open>Inl\<close> when it throws or its promise rejects, \<open>Inr\<close> with the value it resolves to
  (\<open>JUndefined\<close> for a handler that returns nothing). Handlers do not call back into the
  client while a notification is processed.
\<close>

type_synonym handler = "jsval \<Rightarrow> jsval \<Rightarrow> error + jsval"

record pnp_component =
  componentKey :: string
  writeableProperties :: "string list"

text \<open>
  The fields of \<open>DeviceClient\<close> that the registry and the dispatch use. The map
  \<open>#components\<close> is iterated in insertion order, hence a list of entries with distinct
  keys; \<open>reported_update\<close> is \<open>#twin.properties.reported.update\<close>, giving the error it
  passes to its callback, if any.
\<close>

record device_client =
  deviceId :: string
  modelId :: "string option"
  components :: "(string \<times> pnp_component) list"
  propertyChangeHandlers :: "string \<rightharpoonup> handler"
  reported_update :: "jsval \<Rightarrow> error option"

text \<open>What a run does to the outside world, in order.\<close>

datatype event =
    DesiredPropsVersion jsval
  | ComponentChangeHandlerCalled string jsval jsval
  | PropertyChangeHandlerCalled string jsval jsval
  | ReportedUpdate jsval

text \<open>An awaited computation: the events it caused and how it settled.\<close>

type_synonym 'a io = "event list \<times> (error + 'a)"

definition io_return :: "'a \<Rightarrow> 'a io" where
  "io_return x = ([], Inr x)"

definition io_bind :: "'a io \<Rightarrow> ('a \<Rightarrow> 'b io) \<Rightarrow> 'b io" where
  "io_bind m f =
     (case m of
        (t, Inl e) \<Rightarrow> (t, Inl e)
      | (t, Inr x) \<Rightarrow> (case f x of (t', r) \<Rightarrow> (t @ t', r)))"

definition io_catch :: "'a io \<Rightarrow> (error \<Rightarrow> 'a io) \<Rightarrow> 'a io" where
  "io_catch m h =
     (case m of
        (t, Inl e) \<Rightarrow> (case h e of (t', r) \<Rightarrow> (t @ t', r))
      | (t, Inr x) \<Rightarrow> (t, Inr x))"

fun io_for :: "'a list \<Rightarrow> ('a \<Rightarrow> unit io) \<Rightarrow> unit io" where
  "io_for [] body = io_return ()"
| "io_for (x # xs) body = io_bind (body x) (\<lambda>u. io_for xs body)"

fun Map_set :: "'k \<Rightarrow> 'v \<Rightarrow> ('k \<times> 'v) list \<Rightarrow> ('k \<times> 'v) list" where
  "Map_set k v [] = [(k, v)]"
| "Map_set k v ((k', v') # r) = (if k' = k then (k, v) # r else (k', v') # Map_set k v r)"

definition falsy_modelId :: "string option \<Rightarrow> bool" where
  "falsy_modelId m = (case m of None \<Rightarrow> True | Some s \<Rightarrow> s = [])"

text \<open>
  \<open>registerComponent\<close>. The constructor of the component class is user code: it may
  throw, and it may use the client it is given (to register handlers), so it returns
  the instance together with the client as it left it.
\<close>

type_synonym component_ctor = "device_client \<Rightarrow> error + (pnp_component \<times> device_client)"

definition registerComponent ::
  "component_ctor \<Rightarrow> device_client \<Rightarrow> error + (pnp_component \<times> device_client)" where
  "registerComponent componentCtor dc =
     (if falsy_modelId (modelId dc) then Inl (NoModelIdAssignedError (deviceId dc))
      else case componentCtor dc of
             Inl e \<Rightarrow> Inl e
           | Inr (inst, dc') \<Rightarrow>
               Inr (inst, dc'\<lparr>components := Map_set (componentKey inst) inst (components dc')\<rparr>))"

definition addComponentPropertyChangeHandler ::
  "string \<Rightarrow> string \<Rightarrow> handler \<Rightarrow> device_client \<Rightarrow> device_client" where
  "addComponentPropertyChangeHandler cKey propertyKey h dc =
     dc\<lparr>propertyChangeHandlers := (propertyChangeHandlers dc)(cKey @ ''|'' @ propertyKey \<mapsto> h)\<rparr>"

definition addComponentChangeHandler :: "string \<Rightarrow> handler \<Rightarrow> device_client \<Rightarrow> device_client" where
  "addComponentChangeHandler cKey h dc =
     dc\<lparr>propertyChangeHandlers := (propertyChangeHandlers dc)(cKey \<mapsto> h)\<rparr>"

definition reportProperties :: "device_client \<Rightarrow> jsval \<Rightarrow> unit io" where
  "reportProperties dc updatePartial =
     ([ReportedUpdate updatePartial],
      case reported_update dc updatePartial of Some err \<Rightarrow> Inl err | None \<Rightarrow> Inr ())"

definition component_patch :: "markers \<Rightarrow> string \<Rightarrow> jsval \<Rightarrow> jsval" where
  "component_patch mk cKey componentPropUpdatePartial =
     JObj [(cKey,
            JObj (assign_all (assign_all [] (TWIN_COMPONENT_MARKER mk))
                    (own_entries componentPropUpdatePartial)))]"

definition reportComponentProperties ::
  "markers \<Rightarrow> device_client \<Rightarrow> string \<Rightarrow> jsval \<Rightarrow> unit io" where
  "reportComponentProperties mk dc cKey componentPropUpdatePartial =
     reportProperties dc (component_patch mk cKey componentPropUpdatePartial)"

text \<open>
  The two acknowledgement envelopes that the dispatch builds (lines 432-440 and
  444-451), given the text that the template literal inserts for the value.
\<close>

definition success_envelope :: "string \<Rightarrow> jsval \<Rightarrow> string \<Rightarrow> jsval \<Rightarrow> jsval \<Rightarrow> props" where
  "success_envelope propertyKey propertyValue text version result =
     assign_all
       [(''value'', propertyValue),
        (''ac'', JNum ''200''),
        (''ad'', JStr (''Successfully updated ('' @ propertyKey @ '') to ('' @ text @ '')'')),
        (''av'', version)]
       (own_entries result)"

definition failure_envelope :: "string \<Rightarrow> jsval \<Rightarrow> string \<Rightarrow> jsval \<Rightarrow> props" where
  "failure_envelope propertyKey propertyValue text version =
     [(''value'', propertyValue),
      (''ac'', JNum ''400''),
      (''ad'', JStr (''Updating ('' @ propertyKey @ '') state to ('' @ text @ '') failed'')),
      (''av'', version)]"

text \<open>
  Evaluating either object literal converts the value to a string for the
  description, and throws when that conversion throws.
\<close>

definition success_ack :: "string \<Rightarrow> jsval \<Rightarrow> jsval \<Rightarrow> jsval \<Rightarrow> error + props" where
  "success_ack propertyKey propertyValue version result =
     (case to_string propertyValue of
        Inl e \<Rightarrow> Inl e
      | Inr text \<Rightarrow> Inr (success_envelope propertyKey propertyValue text version result))"

definition failure_ack :: "string \<Rightarrow> jsval \<Rightarrow> jsval \<Rightarrow> error + props" where
  "failure_ack propertyKey propertyValue version =
     (case to_string propertyValue of
        Inl e \<Rightarrow> Inl e
      | Inr text \<Rightarrow> Inr (failure_envelope propertyKey propertyValue text version))"

definition io_lift :: "error + 'a \<Rightarrow> 'a io" where
  "io_lift r = ([], r)"

text \<open>
  The body of the innermost loop of \<open>#handleChangedComponentProperties\<close>: one changed
  property of one registered component. The handler is looked up under the property
  key alone. The \<open>try\<close> block awaits the handler, builds the success envelope and
  reports it; whatever it throws is caught, and the \<open>catch\<close> block builds the failure
  envelope and reports it, unguarded. (The calls of \<open>log\<close> write to a debug channel that
  is switched off unless the environment asks for it; they are not modelled.)
\<close>

definition acknowledge_property ::
  "markers \<Rightarrow> device_client \<Rightarrow> string \<Rightarrow> pnp_component \<Rightarrow> jsval \<Rightarrow> string \<times> jsval \<Rightarrow> unit io" where
  "acknowledge_property mk dc cKey component version changed =
     (case changed of (propertyKey, propertyValue) \<Rightarrow>
        if propertyKey \<in> set (writeableProperties component) then
          io_catch
            (io_bind
               (case propertyChangeHandlers dc propertyKey of
                  None \<Rightarrow> io_return JUndefined
                | Some changeHandler \<Rightarrow>
                    ([PropertyChangeHandlerCalled propertyKey propertyValue version],
                     changeHandler propertyValue version))
               (\<lambda>result.
                  io_bind (io_lift (success_ack propertyKey propertyValue version result))
                    (\<lambda>envelope.
                       reportComponentProperties mk dc cKey
                         (JObj [(propertyKey, JObj envelope)]))))
            (\<lambda>err.
               io_bind (io_lift (failure_ack propertyKey propertyValue version))
                 (\<lambda>envelope.
                    reportComponentProperties mk dc cKey
                      (JObj [(propertyKey, JObj envelope)])))
        else io_return ())"

text \<open>The body of the middle loop: one entry of the filtered delta, seen by one component.\<close>

definition handle_changed_component ::
  "markers \<Rightarrow> device_client \<Rightarrow> jsval \<Rightarrow> string \<times> pnp_component \<Rightarrow> string \<times> jsval \<Rightarrow> unit io" where
  "handle_changed_component mk dc version registered changedComponent =
     (case registered of (cKey, component) \<Rightarrow>
      case changedComponent of (changedComponentKey, changedComponentPartial) \<Rightarrow>
        if changedComponentKey \<noteq> cKey then io_return ()
        else
          io_bind
            (case propertyChangeHandlers dc cKey of
               None \<Rightarrow> io_return ()
             | Some componentChangeHandler \<Rightarrow>
                 io_bind
                   ([ComponentChangeHandlerCalled cKey changedComponentPartial version],
                    componentChangeHandler changedComponentPartial version)
                   (\<lambda>r. io_return ()))
            (\<lambda>u. io_for (filterTwinMeta mk changedComponentPartial)
                    (acknowledge_property mk dc cKey component version)))"

definition handleChangedComponentProperties ::
  "markers \<Rightarrow> device_client \<Rightarrow> jsval \<Rightarrow> props \<Rightarrow> unit io" where
  "handleChangedComponentProperties mk dc version changedComponents =
     io_for (components dc)
       (\<lambda>registered. io_for changedComponents (handle_changed_component mk dc version registered))"

text \<open>The listener on \<open>properties.desired\<close> that \<open>connect\<close> installs (lines 291-301).\<close>

definition on_desired_properties :: "markers \<Rightarrow> device_client \<Rightarrow> jsval \<Rightarrow> unit io" where
  "on_desired_properties mk dc changes =
     (case get_prop changes TWIN_VERSION_KEY of
        Inl e \<Rightarrow> ([], Inl e)
      | Inr version \<Rightarrow>
          io_bind ([DesiredPropsVersion version], Inr ())
            (\<lambda>u. if components dc \<noteq> []
                  then handleChangedComponentProperties mk dc version (filterTwinMeta mk changes)
                  else io_return ()))"

text \<open>
  A reported patch mentions property \<open>P\<close> of component \<open>C\<close> when \<open>patch[C]\<close> is an
  object with an own property \<open>P\<close>.
\<close>

definition patch_mentions :: "string \<Rightarrow> string \<Rightarrow> jsval \<Rightarrow> bool" where
  "patch_mentions C P patch =
     (case get_prop patch C of
        Inr (JObj ps) \<Rightarrow> map_of ps P \<noteq> None
      | _ \<Rightarrow> False)"

fun reports_property :: "string \<Rightarrow> string \<Rightarrow> event \<Rightarrow> bool" where
  "reports_property C P (ReportedUpdate patch) = patch_mentions C P patch"
| "reports_property C P ev = False"

text \<open>No component-change handler of a registered component throws or rejects.\<close>

definition component_handlers_resolve :: "device_client \<Rightarrow> jsval \<Rightarrow> bool" where
  "component_handlers_resolve dc version =
     (\<forall>K c h d. (K, c) \<in> set (components dc) \<and> propertyChangeHandlers dc K = Some h
        \<longrightarrow> (\<exists>r. h d version = Inr r))"

text \<open>
  The template literal can convert every value that the notification brings for a
  writable property of a registered component.
\<close>

definition acknowledged_values_print :: "markers \<Rightarrow> device_client \<Rightarrow> jsval \<Rightarrow> bool" where
  "acknowledged_values_print mk dc changes =
     (\<forall>K c d P v. (K, c) \<in> set (components dc) \<and> (K, d) \<in> set (filterTwinMeta mk changes)
          \<and> (P, v) \<in> set (filterTwinMeta mk d) \<and> P \<in> set (writeableProperties c)
        \<longrightarrow> (\<exists>text. to_string v = Inr text))"

subsection \<open>Reading the state of a component (\<open>PnPComponent\<close>)\<close>

record twin =
  properties_desired :: jsval
  properties_reported :: jsval

text \<open>
  \<open>getReportedProperties\<close> and \<open>getDesiredProperties\<close> await \<open>#client.getTwin()\<close>, whose
  outcome is their argument here.
\<close>

definition getReportedProperties :: "markers \<Rightarrow> error + twin \<Rightarrow> error + jsval" where
  "getReportedProperties mk fetched =
     (case fetched of
        Inl e \<Rightarrow> Inl e
      | Inr tw \<Rightarrow> Inr (Object_fromEntries (filterTwinMeta mk (properties_reported tw))))"

definition getDesiredProperties :: "markers \<Rightarrow> error + twin \<Rightarrow> error + jsval" where
  "getDesiredProperties mk fetched =
     (case fetched of
        Inl e \<Rightarrow> Inl e
      | Inr tw \<Rightarrow> Inr (Object_fromEntries (filterTwinMeta mk (properties_desired tw))))"

definition component_state :: "markers \<Rightarrow> pnp_component \<Rightarrow> error + jsval \<Rightarrow> error + jsval" where
  "component_state mk component fetchedProps =
     (case fetchedProps of
        Inl e \<Rightarrow> Inl e
      | Inr props \<Rightarrow>
          (case get_prop props (componentKey component) of
             Inl e \<Rightarrow> Inl e
           | Inr sub \<Rightarrow> if truthy sub then normalizeComponentState mk sub else Inr JNull))"

definition getReportedState :: "markers \<Rightarrow> pnp_component \<Rightarrow> error + twin \<Rightarrow> error + jsval" where
  "getReportedState mk component fetched =
     component_state mk component (getReportedProperties mk fetched)"

definition getDesiredState :: "markers \<Rightarrow> pnp_component \<Rightarrow> error + twin \<Rightarrow> error + jsval" where
  "getDesiredState mk component fetched =
     component_state mk component (getDesiredProperties mk fetched)"

section \<open>The retry helper of the initial connect\<close>

text \<open>
  A promise is an identity and the way it eventually settles: \<open>None\<close> when it stays
  pending for ever, \<open>Some (Inl e)\<close> when it rejects, \<open>Some (Inr v)\<close> when it fulfils.
\<close>

record 'a promise =
  promise_id :: nat
  settles :: "(error + 'a) option"

datatype log_line = RetryAttemptFailed int int error

definition DEFAULT_CONNECTION_RETRIES :: int where
  "DEFAULT_CONNECTION_RETRIES = 3"

definition retryHandler ::
  "'a promise \<Rightarrow> int \<Rightarrow> int \<Rightarrow> error \<Rightarrow> log_line list \<times> 'a promise" where
  "retryHandler promise currentRetry totalRetries err =
     ([RetryAttemptFailed currentRetry totalRetries err], promise)"

text \<open>
  \<open>p.catch(onRejected)\<close> makes a new promise. When \<open>p\<close> rejects, \<open>onRejected\<close> runs and
  the new promise follows the promise it returns; otherwise the new promise follows
  \<open>p\<close>.
\<close>

definition promise_catch ::
  "nat \<Rightarrow> 'a promise \<Rightarrow> (error \<Rightarrow> log_line list \<times> 'a promise) \<Rightarrow> log_line list \<times> 'a promise" where
  "promise_catch fresh p onRejected =
     (case settles p of
        Some (Inl e) \<Rightarrow>
          (case onRejected e of (lg, q) \<Rightarrow> (lg, \<lparr>promise_id = fresh, settles = settles q\<rparr>))
      | other \<Rightarrow> ([], \<lparr>promise_id = fresh, settles = settles p\<rparr>))"

text \<open>
  The loop of \<open>retry\<close>; the accumulator holds the log written by the handlers and the
  promises that the \<open>catch\<close> calls made (the code drops them).
\<close>

function retry_loop ::
  "'a promise \<Rightarrow> int \<Rightarrow> int \<Rightarrow> log_line list \<times> 'a promise list \<Rightarrow> log_line list \<times> 'a promise list" where
  "retry_loop promise attempt retries acc =
     (if attempt \<le> retries then
        (case promise_catch (Suc (promise_id promise) + length (snd acc)) promise
                (retryHandler promise attempt retries) of
           (lg, derived) \<Rightarrow>
             retry_loop promise (attempt + 1) retries (fst acc @ lg, snd acc @ [derived]))
      else acc)"
  by pat_completeness auto
termination
  by (relation "measure (\<lambda>(promise, attempt, retries, acc). nat (retries + 1 - attempt))") auto

declare retry_loop.simps [simp del]

definition retry :: "'a promise \<Rightarrow> int \<Rightarrow> 'a promise \<times> log_line list \<times> 'a promise list" where
  "retry promise retries = (promise, retry_loop promise 1 retries ([], []))"

text \<open>
  \<open>DeviceClient.create\<close>. Connecting acts on the world outside (provisioning service,
  hub): \<open>connect\<close> takes the world and gives how the attempt settles and the world after
  it. The result is how the awaited promise settles, the world, and the log.
\<close>

definition create ::
  "('w \<Rightarrow> (error + unit) option \<times> 'w) \<Rightarrow> int option \<Rightarrow> 'w
     \<Rightarrow> (error + unit) option \<times> 'w \<times> log_line list" where
  "create connect connectionRetries w =
     (case connect w of (outcome, w') \<Rightarrow>
        (case retry \<lparr>promise_id = 0, settles = outcome\<rparr>
                (case connectionRetries of None \<Rightarrow> DEFAULT_CONNECTION_RETRIES | Some n \<Rightarrow> n) of
           (awaited, lg, derived) \<Rightarrow> (settles awaited, w', lg)))"

section \<open>Connection lifecycle: the subscriptions on \<open>disconnected$\<close>\<close>

text \<open>
  \<open>#disconnected$\<close> is a \<open>ReplaySubject\<close> with buffer size 1: \<open>next\<close> stores the value
  as the only buffered one and hands it to every observer; \<open>subscribe\<close> adds the
  observer and hands it the buffered value at once. An observer is either the
  callback \<open>() => this.connect(modelId)\<close> of line 308 or a subscriber from outside.

  \<open>connect\<close> is asynchronous. A call runs up to its first \<open>await\<close> (having tested
  \<open>#client\<close>) and is then in flight; when its awaited operations have settled, it either
  rejects or reaches line 308 and subscribes.
\<close>

datatype observer = Reconnect string | External nat

datatype connect_result = Rejected_before_client | Rejected_after_client | Resolved

record connection =
  client_set :: bool
  disconnected_buffer :: "error option list"
  disconnected_observers :: "observer list"
  in_flight :: "(string \<times> bool) list"
  connect_calls :: "string list"
  completed :: nat

definition initial_connection :: connection where
  "initial_connection =
     \<lparr>client_set = False, disconnected_buffer = [], disconnected_observers = [],
      in_flight = [], connect_calls = [], completed = 0\<rparr>"

definition connect_call :: "string \<Rightarrow> connection \<Rightarrow> connection" where
  "connect_call m s =
     s\<lparr>in_flight := in_flight s @ [(m, \<not> client_set s)],
       connect_calls := connect_calls s @ [m]\<rparr>"

fun notify :: "observer list \<Rightarrow> connection \<Rightarrow> connection" where
  "notify [] s = s"
| "notify (Reconnect m # obs) s = notify obs (connect_call m s)"
| "notify (External i # obs) s = notify obs s"

definition disconnected_next :: "error option \<Rightarrow> connection \<Rightarrow> connection" where
  "disconnected_next v s = notify (disconnected_observers s) (s\<lparr>disconnected_buffer := [v]\<rparr>)"

definition disconnected_subscribe :: "observer \<Rightarrow> connection \<Rightarrow> connection" where
  "disconnected_subscribe ob s =
     foldl (\<lambda>acc v. notify [ob] acc)
       (s\<lparr>disconnected_observers := disconnected_observers s @ [ob]\<rparr>)
       (disconnected_buffer s)"

definition connect_settle :: "nat \<Rightarrow> connect_result \<Rightarrow> connection \<Rightarrow> connection" where
  "connect_settle i r s =
     (if i < length (in_flight s) then
        (case in_flight s ! i of (m, fresh) \<Rightarrow>
           let s1 = s\<lparr>in_flight := take i (in_flight s) @ drop (Suc i) (in_flight s)\<rparr> in
           (case r of
              Rejected_before_client \<Rightarrow> s1
            | Rejected_after_client \<Rightarrow> s1\<lparr>client_set := client_set s1 \<or> fresh\<rparr>
            | Resolved \<Rightarrow>
                disconnected_subscribe (Reconnect m)
                  (s1\<lparr>client_set := client_set s1 \<or> fresh, completed := Suc (completed s1)\<rparr>)))
      else s)"

datatype lifecycle_event =
    Call_connect string
  | Settle_connect nat connect_result
  | Disconnected "error option"
  | Subscribe_external nat

fun lifecycle_step :: "lifecycle_event \<Rightarrow> connection \<Rightarrow> connection" where
  "lifecycle_step (Call_connect m) s = connect_call m s"
| "lifecycle_step (Settle_connect i r) s = connect_settle i r s"
| "lifecycle_step (Disconnected v) s = disconnected_next v s"
| "lifecycle_step (Subscribe_external i) s = disconnected_subscribe (External i) s"

definition lifecycle_run :: "lifecycle_event list \<Rightarrow> connection \<Rightarrow> connection" where
  "lifecycle_run evs s = foldl (\<lambda>acc e. lifecycle_step e acc) s evs"

definition reconnect_observers :: "connection \<Rightarrow> string list" where
  "reconnect_observers s =
     concat (map (\<lambda>ob. case ob of Reconnect m \<Rightarrow> [m] | External i \<Rightarrow> []) (disconnected_observers s))"

section \<open>Example inputs\<close>

definition example_markers :: markers where
  "example_markers =
     \<lparr>TWIN_COMPONENT_MARKER_KEY = ''__t'', TWIN_COMPONENT_MARKER = [(''__t'', JStr ''c'')]\<rparr>"

definition compA :: pnp_component where
  "compA = \<lparr>componentKey = ''compA'', writeableProperties = [''temp'']\<rparr>"

definition example_client :: device_client where
  "example_client =
     \<lparr>deviceId = ''dev-1'', modelId = Some ''dtmi:example:Device;1'',
      components = [(''compA'', compA)],
      propertyChangeHandlers = Map.empty,
      reported_update = (\<lambda>patch. None)\<rparr>"

definition example_changes :: jsval where
  "example_changes =
     JObj [(''compA'', JObj [(''$version'', JNum ''5''), (''temp'', JNum ''21'')]),
           (''$version'', JNum ''5'')]"

definition example_tree :: jsval where
  "example_tree =
     JObj [(''1'', JNum ''7''), (''10'', JNull), (''$version'', JNum ''5''), (''temp'', JNum ''21''),
           (''update'', JBool True), (''__t'', JStr ''c'')]"

definition example_subtree :: jsval where
  "example_subtree = JObj [(''$version'', JNum ''5''), (''temp'', JNum ''21'')]"


definition throwing_client :: device_client where
  "throwing_client =
     addComponentChangeHandler ''temp''
       (\<lambda>value version. Inl (Thrown (JStr ''sensor fault''))) example_client"



definition update_client :: device_client where
  "update_client =
     example_client\<lparr>components :=
       [(''compA'', \<lparr>componentKey = ''compA'', writeableProperties = [''update'']\<rparr>)]\<rparr>"

definition update_changes :: jsval where
  "update_changes =
     JObj [(''compA'', JObj [(''$version'', JNum ''5''), (''update'', JNum ''1'')]),
           (''$version'', JNum ''5'')]"



definition temp_patch :: "props \<Rightarrow> jsval" where
  "temp_patch envelope =
     JObj [(''compA'', JObj [(''__t'', JStr ''c''), (''temp'', JObj envelope)])]"

definition registered_client :: device_client where
  "registered_client =
     addComponentPropertyChangeHandler ''compA'' ''temp''
       (\<lambda>value version. Inr (JObj [(''ac'', JNum ''202'')])) example_client"

definition observing_client :: device_client where
  "observing_client =
     addComponentChangeHandler ''compA'' (\<lambda>delta version. Inr JUndefined) example_client"

definition mixed_changes :: jsval where
  "mixed_changes =
     JObj [(''compA'', JObj [(''$version'', JNum ''5''), (''temp'', JNum ''21''), (''mode'', JStr ''eco'')]),
           (''$version'', JNum ''5'')]"

definition mixed_subtree :: jsval where
  "mixed_subtree = JObj [(''$version'', JNum ''5''), (''temp'', JNum ''21''), (''mode'', JStr ''eco'')]"

definition update_observing_client :: device_client where
  "update_observing_client =
     addComponentChangeHandler ''compA'' (\<lambda>delta version. Inr JUndefined) update_client"

definition example_twin :: twin where
  "example_twin =
     \<lparr>properties_desired =
        JObj [(''compA'', JObj [(''__t'', JStr ''c''), (''temp'', JNum ''21''), (''update'', JNum ''1'')]),
              (''$version'', JNum ''5'')],
      properties_reported =
        JObj [(''compA'',
               JObj [(''__t'', JStr ''c''),
                     (''temp'', JObj [(''value'', JNum ''21''), (''ac'', JNum ''200''),
                                      (''ad'', JStr ''Successfully updated (temp) to (21)''),
                                      (''av'', JNum ''5'')]),
                     (''update'', JNum ''1'')]),
              (''$version'', JNum ''3'')]\<rparr>"

definition compA_again :: pnp_component where
  "compA_again = \<lparr>componentKey = ''compA'', writeableProperties = [''mode'']\<rparr>"

definition compA_again_ctor :: component_ctor where
  "compA_again_ctor dc = Inr (compA_again, dc)"

definition unreachable_hub :: "nat \<Rightarrow> (error + unit) option \<times> nat" where
  "unreachable_hub attempts = (Some (Inl (Thrown (JStr ''unreachable''))), Suc attempts)"

definition reconnected_once :: connection where
  "reconnected_once =
     lifecycle_run [Call_connect ''model'', Settle_connect 0 Resolved, Disconnected None]
       initial_connection"

definition rejected_once :: connection where
  "rejected_once =
     lifecycle_run [Call_connect ''model'', Settle_connect 0 Rejected_after_client]
       initial_connection"

section \<open>Properties of the codec and of the acknowledgement recogniser\<close>

lemma and_then_simps:
  "and_then (Inr True) b = b"
  "and_then (Inr False) b = Inr False"
  "and_then (Inl e) b = Inl e"
  by (simp_all add: and_then_def)

lemma array_index_fixed_names:
  "array_index ''ac'' = None" "array_index ''ad'' = None"
  "array_index ''av'' = None" "array_index ''value'' = None"
  by (simp_all add: array_index_def digit_value_def)

text \<open>
  Claim C10. \<open>isWritablePropertyResponse\<close> is not total: on \<open>null\<close> it throws a
  \<open>TypeError\<close>, because \<open>typeof null\<close> is \<open>object\<close> and \<open>in\<close> is then applied to
  \<open>null\<close>. On every value that is not an object it returns \<open>false\<close>, and on every
  object other than \<open>null\<close> it returns \<open>true\<close> exactly when the four fields \<open>value\<close>,
  \<open>ac\<close>, \<open>ad\<close> and \<open>av\<close> are all present.
\<close>

theorem isWritablePropertyResponse_cases:
  "isWritablePropertyResponse JNull = Inl TypeError
   \<and> (typeof v \<noteq> ''object'' \<longrightarrow> isWritablePropertyResponse v = Inr False)
   \<and> (typeof v = ''object'' \<and> v \<noteq> JNull \<longrightarrow>
        isWritablePropertyResponse v =
          Inr (in_op ''value'' v = Inr True \<and> in_op ''ac'' v = Inr True
               \<and> in_op ''ad'' v = Inr True \<and> in_op ''av'' v = Inr True))
   \<and> isWritablePropertyResponse (JObj ps) =
        Inr (map_of ps ''value'' \<noteq> None \<and> map_of ps ''ac'' \<noteq> None
             \<and> map_of ps ''ad'' \<noteq> None \<and> map_of ps ''av'' \<noteq> None)"
proof -
  have null: "isWritablePropertyResponse JNull = Inl TypeError"
    by (simp add: isWritablePropertyResponse_def and_then_simps)
  have prim: "typeof v \<noteq> ''object'' \<longrightarrow> isWritablePropertyResponse v = Inr False"
    by (simp add: isWritablePropertyResponse_def and_then_simps)
  have obj: "isWritablePropertyResponse (JObj ps) =
        Inr (map_of ps ''value'' \<noteq> None \<and> map_of ps ''ac'' \<noteq> None
             \<and> map_of ps ''ad'' \<noteq> None \<and> map_of ps ''av'' \<noteq> None)" for ps
    by (auto simp add: isWritablePropertyResponse_def and_then_def)
  have arr: "isWritablePropertyResponse (JArr xs) = Inr False" for xs
    by (simp add: isWritablePropertyResponse_def and_then_simps array_index_fixed_names)
  have nonnull: "typeof v = ''object'' \<and> v \<noteq> JNull \<longrightarrow>
        isWritablePropertyResponse v =
          Inr (in_op ''value'' v = Inr True \<and> in_op ''ac'' v = Inr True
               \<and> in_op ''ad'' v = Inr True \<and> in_op ''av'' v = Inr True)"
  proof (cases v)
    case (JObj kvs)
    then show ?thesis using obj [of kvs] by auto
  next
    case (JArr xs)
    then show ?thesis using arr [of xs] by (simp add: array_index_fixed_names)
  qed simp_all
  from null prim nonnull obj show ?thesis by blast
qed

theorem isWritablePropertyResponse_cases_witness:
  "isWritablePropertyResponse JNull = Inl TypeError
   \<and> isWritablePropertyResponse (JStr ''ack'') = Inr False
   \<and> isWritablePropertyResponse (JArr [JNum ''1'']) = Inr False
   \<and> isWritablePropertyResponse
        (JObj [(''value'', JNum ''21''), (''ac'', JNum ''200''), (''ad'', JStr ''ok''), (''av'', JNum ''5'')])
      = Inr True
   \<and> isWritablePropertyResponse (JObj [(''value'', JNum ''21''), (''ac'', JNum ''200'')]) = Inr False"
  using isWritablePropertyResponse_cases [of "JStr ''ack''" "[]"]
        isWritablePropertyResponse_cases [of "JArr [JNum ''1'']"
          "[(''value'', JNum ''21''), (''ac'', JNum ''200''), (''ad'', JStr ''ok''), (''av'', JNum ''5'')]"]
        isWritablePropertyResponse_cases [of JNull "[(''value'', JNum ''21''), (''ac'', JNum ''200'')]"]
  by (simp add: array_index_fixed_names)

subsection \<open>Keys of built objects\<close>

lemma map_of_None_iff_keys: "(map_of ps k = None) = (k \<notin> fst ` set ps)"
  by (simp add: map_of_eq_None_iff)

lemma keys_replace_value: "map fst (replace_value k v ps) = map fst ps"
  by (induction ps) auto

lemma keys_insert_index: "fst ` set (insert_index n k v ps) = insert k (fst ` set ps)"
proof (induction ps)
  case Nil
  show ?case by simp
next
  case (Cons p ps)
  obtain k' v' where p: "p = (k', v')" by (cases p)
  show ?case
    using Cons.IH by (cases "array_index k'") (simp_all add: p insert_commute)
qed

lemma keys_obj_set: "fst ` set (obj_set k v ps) = insert k (fst ` set ps)"
proof (cases "map_of ps k")
  case None
  then show ?thesis
    by (cases "array_index k") (simp_all add: obj_set_def keys_insert_index)
next
  case (Some old)
  then have "k \<in> fst ` set ps"
    by (metis map_of_None_iff_keys option.distinct(1))
  moreover have "fst ` set (replace_value k v ps) = fst ` set ps"
    using keys_replace_value [of k v ps] by (metis set_map)
  ultimately show ?thesis
    using Some by (simp add: obj_set_def insert_absorb)
qed

lemma keys_assign_all: "fst ` set (assign_all target source) = fst ` set target \<union> fst ` set source"
  unfolding assign_all_def
proof (induction source arbitrary: target)
  case Nil
  show ?case by simp
next
  case (Cons p source)
  obtain k v where p: "p = (k, v)" by (cases p)
  show ?case
    using Cons.IH [of "obj_set k v target"] by (simp add: p keys_obj_set)
qed

subsection \<open>Rebuilding an object from entries in enumeration order\<close>

lemma insert_index_at_end:
  "\<forall>k' \<in> fst ` set ps. \<exists>m. array_index k' = Some m \<and> m < n \<Longrightarrow>
   insert_index n k v ps = ps @ [(k, v)]"
  by (induction ps) auto

lemma obj_set_new_last:
  assumes "wf_props (ps @ [(k, v)])"
  shows "obj_set k v ps = ps @ [(k, v)]"
proof -
  from assms have fresh: "k \<notin> fst ` set ps"
    and before: "\<forall>k' \<in> fst ` set ps. key_before k' k"
    by (auto simp add: wf_props_def sorted_wrt_append)
  from fresh have none: "map_of ps k = None"
    by (simp add: map_of_None_iff_keys)
  show ?thesis
  proof (cases "array_index k")
    case None
    with none show ?thesis by (simp add: obj_set_def)
  next
    case (Some n)
    have "\<forall>k' \<in> fst ` set ps. \<exists>m. array_index k' = Some m \<and> m < n"
    proof
      fix k' assume "k' \<in> fst ` set ps"
      with before have "key_before k' k" by blast
      with Some show "\<exists>m. array_index k' = Some m \<and> m < n"
        by (auto simp add: key_before_def split: option.splits)
    qed
    then have "insert_index n k v ps = ps @ [(k, v)]"
      by (rule insert_index_at_end)
    with none Some show ?thesis by (simp add: obj_set_def)
  qed
qed

lemma wf_props_butlast: "wf_props (ps @ [p]) \<Longrightarrow> wf_props ps"
  by (auto simp add: wf_props_def sorted_wrt_append)

lemma assign_all_wf: "wf_props ps \<Longrightarrow> assign_all [] ps = ps"
proof (induction ps rule: rev_induct)
  case Nil
  show ?case by (simp add: assign_all_def)
next
  case (snoc p ps)
  obtain k v where p: "p = (k, v)" by (cases p)
  from snoc.prems have "wf_props ps" by (rule wf_props_butlast)
  with snoc.IH have "assign_all [] ps = ps" by simp
  then have "assign_all [] (ps @ [p]) = obj_set k v ps"
    by (simp add: assign_all_def p)
  also have "\<dots> = ps @ [(k, v)]"
    using snoc.prems by (simp add: obj_set_new_last p)
  finally show ?case by (simp add: p)
qed

lemma wf_props_filter_keys: "wf_props ps \<Longrightarrow> wf_props (filter (\<lambda>(k, v). Q k) ps)"
proof -
  assume wf: "wf_props ps"
  have m: "map fst (filter (\<lambda>(k, v). Q k) ps) = filter Q (map fst ps)"
    by (induction ps) auto
  from wf show ?thesis
    by (simp add: wf_props_def m sorted_wrt_filter)
qed

lemma wf_props_filterTwinMeta: "wf_props (own_entries t) \<Longrightarrow> wf_props (filterTwinMeta mk t)"
proof -
  assume wf: "wf_props (own_entries t)"
  have "wf_props (own_entries (if truthy t then t else JObj []))"
    using wf by (simp add: wf_props_def)
  then show ?thesis
    unfolding filterTwinMeta_def by (rule wf_props_filter_keys)
qed

subsection \<open>The entries of arrays and strings are in enumeration order\<close>

lemma digit_cases: "d < 10 \<Longrightarrow> d \<in> {0, 1, 2, 3, 4, 5, 6, 7, 8, 9 :: nat}"
  by auto

lemma digit_value_digit_char: "d < 10 \<Longrightarrow> digit_value (digit_char d) = Some d"
  using digit_cases [of d] by (auto simp add: digit_value_def digit_char_def)

lemma digit_char_nonzero: "0 < d \<Longrightarrow> d < 10 \<Longrightarrow> digit_char d \<noteq> CHR ''0''"
  using digit_cases [of d] by (auto simp add: digit_char_def)

lemma read_digits_snoc:
  "read_digits acc (cs @ [c]) =
     (case read_digits acc cs of
        None \<Rightarrow> None
      | Some a \<Rightarrow> (case digit_value c of None \<Rightarrow> None | Some d \<Rightarrow> Some (10 * a + d)))"
  by (induction cs arbitrary: acc) (simp_all split: option.splits)

lemma show_nat_nonempty: "show_nat n \<noteq> []"
  by (subst show_nat.simps) simp

lemma read_digits_show_nat: "read_digits 0 (show_nat n) = Some n"
proof (induction n rule: show_nat.induct)
  case (1 n)
  show ?case
  proof (cases "n < 10")
    case True
    then show ?thesis
      by (subst show_nat.simps) (simp add: digit_value_digit_char)
  next
    case False
    then have "read_digits 0 (show_nat (n div 10)) = Some (n div 10)"
      by (rule "1.IH")
    with False show ?thesis
      by (subst show_nat.simps) (simp add: read_digits_snoc digit_value_digit_char)
  qed
qed

lemma show_nat_leading: "0 < n \<Longrightarrow> hd (show_nat n) \<noteq> CHR ''0''"
proof (induction n rule: show_nat.induct)
  case (1 n)
  show ?case
  proof (cases "n < 10")
    case True
    with "1.prems" show ?thesis
      by (subst show_nat.simps) (simp add: digit_char_nonzero)
  next
    case False
    then have "0 < n div 10" by simp
    with False have "hd (show_nat (n div 10)) \<noteq> CHR ''0''"
      by (intro "1.IH") simp_all
    with False show ?thesis
      by (subst show_nat.simps) (simp add: show_nat_nonempty)
  qed
qed

lemma array_index_show_nat: "n < 4294967295 \<Longrightarrow> array_index (show_nat n) = Some n"
proof (cases "n = 0")
  case True
  then show ?thesis
    by (simp add: array_index_def show_nat.simps [of 0] digit_char_def digit_value_def)
next
  case False
  assume "n < 4294967295"
  moreover from False have "hd (show_nat n) \<noteq> CHR ''0''"
    by (simp add: show_nat_leading)
  ultimately show ?thesis
    by (simp add: array_index_def show_nat_nonempty read_digits_show_nat)
qed

lemma keys_indexed_from: "map fst (indexed_from i xs) = map show_nat [i..<i + length xs]"
proof (induction xs arbitrary: i)
  case Nil
  show ?case by simp
next
  case (Cons x xs)
  have "[i..<i + length (x # xs)] = i # [Suc i..<Suc i + length xs]"
    by (simp add: upt_rec)
  with Cons.IH [of "Suc i"] show ?case by simp
qed

lemma indexed_from_wf:
  assumes "i + length xs \<le> 4294967295"
  shows "wf_props (indexed_from i xs)"
proof -
  let ?js = "[i..<i + length xs]"
  have index: "array_index (show_nat j) = Some j" if "j \<in> set ?js" for j
  proof -
    from that have "j < i + length xs" by simp
    with assms have "j < 4294967295" by linarith
    then show ?thesis by (rule array_index_show_nat)
  qed
  have "inj_on show_nat (set ?js)"
  proof (rule inj_onI)
    fix a b
    assume a: "a \<in> set ?js" and b: "b \<in> set ?js" and same: "show_nat a = show_nat b"
    from index [OF a] same have "array_index (show_nat b) = Some a" by simp
    with index [OF b] show "a = b" by simp
  qed
  then have unique: "distinct (map show_nat ?js)"
    by (simp only: distinct_map distinct_upt simp_thms)
  have "sorted_wrt (\<lambda>a b. key_before (show_nat a) (show_nat b)) ?js"
  proof (rule sorted_wrt_mono_rel [where P = "(<)"])
    fix a b
    assume a: "a \<in> set ?js" and b: "b \<in> set ?js" and "a < b"
    with index [OF a] index [OF b] show "key_before (show_nat a) (show_nat b)"
      by (simp only: key_before_def option.case)
  next
    show "sorted_wrt (<) ?js" by (rule sorted_wrt_upt)
  qed
  then have ordered: "sorted_wrt key_before (map show_nat ?js)"
    by (simp only: sorted_wrt_map)
  from unique ordered show ?thesis
    by (simp only: wf_props_def keys_indexed_from simp_thms)
qed

text \<open>
  So the entries of every array and of every string (of at most \<open>2^32 - 1\<close> elements, the
  bound of JavaScript arrays) are in enumeration order, as those of \<open>undefined\<close>,
  \<open>null\<close>, booleans and numbers trivially are.
\<close>

lemma own_entries_wf:
  "(case t of
      JObj kvs \<Rightarrow> wf_props kvs
    | JArr xs \<Rightarrow> length xs \<le> 4294967295
    | JStr cs \<Rightarrow> length cs \<le> 4294967295
    | other \<Rightarrow> True) \<Longrightarrow> wf_props (own_entries t)"
  by (cases t) (simp_all add: indexed_from_wf, simp_all add: wf_props_def)

text \<open>
  Claim C7. \<open>filterTwinMeta\<close> is idempotent: filtering the object rebuilt (with
  \<open>Object.fromEntries\<close>) from the pairs \<open>filterTwinMeta t\<close> gives the same sequence of
  pairs again, for every tree \<open>t\<close> whose properties are in enumeration order.
\<close>

theorem filterTwinMeta_idempotent:
  assumes "wf_props (own_entries t)"
  shows "filterTwinMeta mk (Object_fromEntries (filterTwinMeta mk t)) = filterTwinMeta mk t"
proof -
  from assms have "wf_props (filterTwinMeta mk t)"
    by (rule wf_props_filterTwinMeta)
  then have rebuilt: "Object_fromEntries (filterTwinMeta mk t) = JObj (filterTwinMeta mk t)"
    by (simp add: Object_fromEntries_def assign_all_wf)
  have "filterTwinMeta mk (JObj (filterTwinMeta mk t)) = filterTwinMeta mk t"
    by (simp add: filterTwinMeta_def)
  with rebuilt show ?thesis by simp
qed

lemma example_tree_wf: "wf_props (own_entries example_tree)"
  by (simp add: example_tree_def wf_props_def key_before_def array_index_def digit_value_def)

lemma example_tree_filtered:
  "filterTwinMeta example_markers example_tree
     = [(''1'', JNum ''7''), (''10'', JNull), (''temp'', JNum ''21'')]"
  by (simp add: example_tree_def filterTwinMeta_def is_twin_meta_def startsWith_def
      TWIN_VERSION_KEY_def example_markers_def)

theorem filterTwinMeta_idempotent_witness:
  "wf_props (own_entries example_tree)
   \<and> filterTwinMeta example_markers
         (Object_fromEntries (filterTwinMeta example_markers example_tree))
       = [(''1'', JNum ''7''), (''10'', JNull), (''temp'', JNum ''21'')]"
  using filterTwinMeta_idempotent [OF example_tree_wf, of example_markers]
  by (simp add: example_tree_wf example_tree_filtered)

section \<open>Properties of the dispatch\<close>

subsection \<open>Sequencing\<close>

lemma io_bind_ok:
  "snd m = Inr x \<Longrightarrow> io_bind m f = (fst m @ fst (f x), snd (f x))"
  by (cases m) (simp add: io_bind_def split: prod.splits)

lemma io_bind_failed:
  "snd m = Inl e \<Longrightarrow> io_bind m f = (fst m, Inl e)"
  by (cases m) (simp add: io_bind_def)

lemma io_bind_events:
  "set (fst (io_bind m f)) \<subseteq> set (fst m) \<union> (\<Union>x. set (fst (f x)))"
proof (cases m)
  case (Pair t r)
  show ?thesis
  proof (cases r)
    case (Inl e)
    with Pair show ?thesis by (simp add: io_bind_def)
  next
    case (Inr x)
    with Pair have "fst (io_bind m f) = t @ fst (f x)"
      by (simp add: io_bind_def split: prod.splits)
    then show ?thesis using Pair by auto
  qed
qed

lemma io_for_all_ok:
  "\<forall>x \<in> set xs. snd (body x) = Inr () \<Longrightarrow>
   io_for xs body = (concat (map (\<lambda>x. fst (body x)) xs), Inr ())"
proof (induction xs)
  case Nil
  show ?case by (simp add: io_return_def)
next
  case (Cons x xs)
  then have rest: "io_for xs body = (concat (map (\<lambda>x. fst (body x)) xs), Inr ())"
    by simp
  from Cons.prems have "snd (body x) = Inr ()" by simp
  then have "io_bind (body x) (\<lambda>u. io_for xs body)
      = (fst (body x) @ fst (io_for xs body), snd (io_for xs body))"
    by (rule io_bind_ok)
  with rest show ?case by simp
qed

lemma io_for_events:
  "ev \<in> set (fst (io_for xs body)) \<Longrightarrow> \<exists>x \<in> set xs. ev \<in> set (fst (body x))"
proof (induction xs)
  case Nil
  then show ?case by (simp add: io_return_def)
next
  case (Cons x xs)
  from Cons.prems have "ev \<in> set (fst (io_bind (body x) (\<lambda>u. io_for xs body)))"
    by simp
  with io_bind_events [of "body x" "\<lambda>u. io_for xs body"]
  have "ev \<in> set (fst (body x)) \<or> ev \<in> set (fst (io_for xs body))"
    by auto
  with Cons.IH show ?case by auto
qed




subsection \<open>One property\<close>

lemma acknowledge_property_not_writable:
  "P \<notin> set (writeableProperties co) \<Longrightarrow>
   acknowledge_property mk dc C co ver (P, v) = ([], Inr ())"
  by (simp add: acknowledge_property_def io_return_def)

lemma io_lift_bind:
  "io_bind (io_lift (Inr x)) f = f x"
  "io_bind (io_lift (Inl e)) f = ([], Inl e)"
  by (cases "f x") (simp_all add: io_lift_def io_bind_def)

lemmas acknowledge_unfold =
  acknowledge_property_def success_ack_def failure_ack_def io_lift_def io_return_def
  io_bind_def io_catch_def reportComponentProperties_def reportProperties_def

lemma acknowledge_property_no_handler:
  assumes "P \<in> set (writeableProperties co)" and "propertyChangeHandlers dc P = None"
    and "to_string v = Inr text"
    and "reported_update dc
           (component_patch mk C (JObj [(P, JObj (success_envelope P v text ver JUndefined))]))
         = None"
  shows "acknowledge_property mk dc C co ver (P, v) =
           ([ReportedUpdate
               (component_patch mk C
                  (JObj [(P, JObj (success_envelope P v text ver JUndefined))]))],
            Inr ())"
  using assms by (simp add: acknowledge_unfold)

lemma acknowledge_property_resolved:
  assumes "P \<in> set (writeableProperties co)" and "propertyChangeHandlers dc P = Some h"
    and "h v ver = Inr r" and "to_string v = Inr text"
    and "reported_update dc
           (component_patch mk C (JObj [(P, JObj (success_envelope P v text ver r))])) = None"
  shows "acknowledge_property mk dc C co ver (P, v) =
           ([PropertyChangeHandlerCalled P v ver,
             ReportedUpdate
               (component_patch mk C (JObj [(P, JObj (success_envelope P v text ver r))]))],
            Inr ())"
  using assms by (simp add: acknowledge_unfold)

lemma acknowledge_property_thrown:
  assumes "P \<in> set (writeableProperties co)" and "propertyChangeHandlers dc P = Some h"
    and "h v ver = Inl e" and "to_string v = Inr text"
  shows "acknowledge_property mk dc C co ver (P, v) =
           ([PropertyChangeHandlerCalled P v ver,
             ReportedUpdate
               (component_patch mk C (JObj [(P, JObj (failure_envelope P v text ver))]))],
            case reported_update dc
                   (component_patch mk C (JObj [(P, JObj (failure_envelope P v text ver))])) of
              Some err \<Rightarrow> Inl err
            | None \<Rightarrow> Inr ())"
  using assms by (simp add: acknowledge_unfold)

text \<open>
  When the value cannot be converted, the \<open>try\<close> block throws while it builds the
  success envelope, the \<open>catch\<close> block throws while it builds the failure envelope, and
  nothing is reported.
\<close>

lemma acknowledge_property_unprintable:
  assumes "P \<in> set (writeableProperties co)" and "to_string v = Inl e"
  shows "acknowledge_property mk dc C co ver (P, v) =
           ((case propertyChangeHandlers dc P of
               None \<Rightarrow> []
             | Some h \<Rightarrow> [PropertyChangeHandlerCalled P v ver]),
            Inl e)"
proof (cases "propertyChangeHandlers dc P")
  case None
  with assms show ?thesis by (simp add: acknowledge_unfold)
next
  case (Some h)
  with assms show ?thesis by (cases "h v ver") (simp_all add: acknowledge_unfold)
qed

lemma reportComponentProperties_events:
  "fst (reportComponentProperties mk dc C X) = [ReportedUpdate (component_patch mk C X)]"
  by (simp add: reportComponentProperties_def reportProperties_def)

lemma io_catch_events:
  "set (fst (io_catch m h)) \<subseteq> set (fst m) \<union> (\<Union>e. set (fst (h e)))"
proof (cases m)
  case (Pair t r)
  show ?thesis
  proof (cases r)
    case (Inl e)
    with Pair have "fst (io_catch m h) = t @ fst (h e)"
      by (simp add: io_catch_def split: prod.splits)
    then show ?thesis using Pair by auto
  next
    case (Inr x)
    with Pair show ?thesis by (simp add: io_catch_def)
  qed
qed

lemma built_and_reported_events:
  "set (fst (io_bind (io_lift built)
               (\<lambda>envelope. reportComponentProperties mk dc C (JObj [(P, JObj envelope)]))))
     \<subseteq> {ev. \<exists>env. ev = ReportedUpdate (component_patch mk C (JObj [(P, JObj env)]))}"
  by (cases built) (auto simp add: io_lift_bind reportComponentProperties_events)

lemma acknowledge_property_events:
  assumes "ev \<in> set (fst (acknowledge_property mk dc C co ver (P, v)))"
  shows "P \<in> set (writeableProperties co)
         \<and> (ev = PropertyChangeHandlerCalled P v ver
            \<or> (\<exists>env. ev = ReportedUpdate (component_patch mk C (JObj [(P, JObj env)]))))"
proof -
  from assms have w: "P \<in> set (writeableProperties co)"
    by (cases "P \<in> set (writeableProperties co)") (simp_all add: acknowledge_property_not_writable)
  define call where "call =
    (case propertyChangeHandlers dc P of
       None \<Rightarrow> io_return JUndefined
     | Some changeHandler \<Rightarrow> ([PropertyChangeHandlerCalled P v ver], changeHandler v ver))"
  define ok where "ok = (\<lambda>result. io_bind (io_lift (success_ack P v ver result))
      (\<lambda>envelope. reportComponentProperties mk dc C (JObj [(P, JObj envelope)])))"
  define failed where "failed = (\<lambda>err :: error. io_bind (io_lift (failure_ack P v ver))
      (\<lambda>envelope. reportComponentProperties mk dc C (JObj [(P, JObj envelope)])))"
  have unfolded: "acknowledge_property mk dc C co ver (P, v) = io_catch (io_bind call ok) failed"
    using w by (simp add: acknowledge_property_def call_def ok_def failed_def)
  have call_events: "set (fst call) \<subseteq> {PropertyChangeHandlerCalled P v ver}"
    by (cases "propertyChangeHandlers dc P") (simp_all add: call_def io_return_def)
  have ok_events: "set (fst (ok r)) \<subseteq>
      {ev. \<exists>env. ev = ReportedUpdate (component_patch mk C (JObj [(P, JObj env)]))}" for r
    unfolding ok_def by (rule built_and_reported_events)
  have failed_events: "set (fst (failed e)) \<subseteq>
      {ev. \<exists>env. ev = ReportedUpdate (component_patch mk C (JObj [(P, JObj env)]))}" for e
    unfolding failed_def by (rule built_and_reported_events)
  from assms unfolded have "ev \<in> set (fst (io_catch (io_bind call ok) failed))"
    by simp
  with io_catch_events [of "io_bind call ok" failed]
  have "ev \<in> set (fst (io_bind call ok)) \<or> (\<exists>e. ev \<in> set (fst (failed e)))"
    by auto
  with io_bind_events [of call ok]
  have "ev \<in> set (fst call) \<or> (\<exists>r. ev \<in> set (fst (ok r))) \<or> (\<exists>e. ev \<in> set (fst (failed e)))"
    by auto
  with call_events ok_events failed_events w show ?thesis
    by blast
qed

lemma acknowledge_property_settles:
  assumes "\<forall>patch. reported_update dc patch = None"
    and "P \<in> set (writeableProperties co) \<longrightarrow> (\<exists>text. to_string v = Inr text)"
  shows "snd (acknowledge_property mk dc C co ver (P, v)) = Inr ()"
proof (cases "P \<in> set (writeableProperties co)")
  case False
  then show ?thesis by (simp add: acknowledge_property_not_writable)
next
  case True
  with assms(2) obtain t where printed: "to_string v = Inr t" by blast
  show ?thesis
  proof (cases "propertyChangeHandlers dc P")
    case None
    with True printed assms(1) show ?thesis by (simp add: acknowledge_property_no_handler)
  next
    case (Some h)
    show ?thesis
    proof (cases "h v ver")
      case (Inl e)
      with True Some printed assms(1) show ?thesis by (simp add: acknowledge_property_thrown)
    next
      case (Inr r)
      with True Some printed assms(1) show ?thesis by (simp add: acknowledge_property_resolved)
    qed
  qed
qed

subsection \<open>What a patch mentions\<close>

lemma patch_mentions_component_patch:
  "patch_mentions C P (component_patch mk K X) =
     (K = C \<and> (P \<in> fst ` set (TWIN_COMPONENT_MARKER mk) \<or> P \<in> fst ` set (own_entries X)))"
  by (simp add: patch_mentions_def component_patch_def map_of_None_iff_keys keys_assign_all)

lemma reports_property_component_patch:
  "reports_property C P (ReportedUpdate (component_patch mk K (JObj [(P', X)]))) =
     (K = C \<and> (P \<in> fst ` set (TWIN_COMPONENT_MARKER mk) \<or> P = P'))"
  by (auto simp add: patch_mentions_component_patch)

subsection \<open>One changed component\<close>

lemma own_entries_truthy: "own_entries t \<noteq> [] \<Longrightarrow> truthy t"
  by (cases t) auto

lemma in_filterTwinMeta:
  assumes "(k, v) \<in> set (own_entries t)" and "\<not> is_twin_meta mk k"
  shows "(k, v) \<in> set (filterTwinMeta mk t)"
proof -
  from assms(1) have "own_entries t \<noteq> []" by auto
  then have "truthy t" by (rule own_entries_truthy)
  with assms show ?thesis by (simp add: filterTwinMeta_def)
qed

lemma filterTwinMeta_subset:
  assumes "(k, v) \<in> set (filterTwinMeta mk t)"
  shows "(k, v) \<in> set (own_entries t) \<and> \<not> is_twin_meta mk k"
proof (cases "truthy t")
  case True
  with assms show ?thesis by (simp add: filterTwinMeta_def)
next
  case False
  with assms show ?thesis by (simp add: filterTwinMeta_def)
qed

lemma handle_changed_component_other:
  "K' \<noteq> K \<Longrightarrow> handle_changed_component mk dc ver (K, c) (K', d) = ([], Inr ())"
  by (simp add: handle_changed_component_def io_return_def)

lemma handle_changed_component_events:
  assumes "ev \<in> set (fst (handle_changed_component mk dc ver (K, c) (K', d)))"
  shows "K' = K
         \<and> ((ev = ComponentChangeHandlerCalled K d ver \<and> propertyChangeHandlers dc K \<noteq> None)
            \<or> (\<exists>ch \<in> set (filterTwinMeta mk d).
                  ev \<in> set (fst (acknowledge_property mk dc K c ver ch))))"
proof -
  from assms have same: "K' = K"
    by (cases "K' = K") (simp_all add: handle_changed_component_other)
  define call where "call =
    (case propertyChangeHandlers dc K of
       None \<Rightarrow> io_return ()
     | Some componentChangeHandler \<Rightarrow>
         io_bind ([ComponentChangeHandlerCalled K d ver], componentChangeHandler d ver)
           (\<lambda>r. io_return ()))"
  define rest where "rest =
    (\<lambda>u :: unit. io_for (filterTwinMeta mk d) (acknowledge_property mk dc K c ver))"
  have unfolded: "handle_changed_component mk dc ver (K, c) (K', d) = io_bind call rest"
    using same by (simp add: handle_changed_component_def call_def rest_def)
  have call_events:
    "set (fst call) \<subseteq> {e. e = ComponentChangeHandlerCalled K d ver
                              \<and> propertyChangeHandlers dc K \<noteq> None}"
  proof (cases "propertyChangeHandlers dc K")
    case None
    then show ?thesis by (simp add: call_def io_return_def)
  next
    case (Some h)
    then show ?thesis
      by (cases "h d ver") (simp_all add: call_def io_bind_def io_return_def)
  qed
  from assms unfolded io_bind_events [of call rest]
  have "ev \<in> set (fst call) \<or> (\<exists>u. ev \<in> set (fst (rest u)))"
    by auto
  then show ?thesis
  proof
    assume "ev \<in> set (fst call)"
    with call_events same show ?thesis by auto
  next
    assume "\<exists>u. ev \<in> set (fst (rest u))"
    then have "ev \<in> set (fst (io_for (filterTwinMeta mk d) (acknowledge_property mk dc K c ver)))"
      by (simp add: rest_def)
    then have "\<exists>ch \<in> set (filterTwinMeta mk d).
        ev \<in> set (fst (acknowledge_property mk dc K c ver ch))"
      by (rule io_for_events)
    with same show ?thesis by simp
  qed
qed

lemma handle_changed_component_same:
  assumes transport: "\<forall>patch. reported_update dc patch = None"
    and resolves: "\<forall>h. propertyChangeHandlers dc K = Some h \<longrightarrow> (\<exists>r. h d ver = Inr r)"
    and prints: "\<forall>P v. (P, v) \<in> set (filterTwinMeta mk d) \<and> P \<in> set (writeableProperties c)
                   \<longrightarrow> (\<exists>text. to_string v = Inr text)"
  shows "handle_changed_component mk dc ver (K, c) (K, d) =
           ((case propertyChangeHandlers dc K of
               None \<Rightarrow> []
             | Some h \<Rightarrow> [ComponentChangeHandlerCalled K d ver])
            @ concat (map (\<lambda>ch. fst (acknowledge_property mk dc K c ver ch))
                        (filterTwinMeta mk d)),
            Inr ())"
proof -
  have "snd (acknowledge_property mk dc K c ver ch) = Inr ()"
    if "ch \<in> set (filterTwinMeta mk d)" for ch
  proof -
    obtain P v where ch: "ch = (P, v)" by (cases ch)
    from that prints
    have "P \<in> set (writeableProperties c) \<longrightarrow> (\<exists>text. to_string v = Inr text)"
      unfolding ch by blast
    with transport show ?thesis
      unfolding ch by (rule acknowledge_property_settles)
  qed
  then have "\<forall>ch \<in> set (filterTwinMeta mk d).
      snd (acknowledge_property mk dc K c ver ch) = Inr ()"
    by blast
  then have rest: "io_for (filterTwinMeta mk d) (acknowledge_property mk dc K c ver) =
      (concat (map (\<lambda>ch. fst (acknowledge_property mk dc K c ver ch)) (filterTwinMeta mk d)),
       Inr ())"
    by (rule io_for_all_ok)
  show ?thesis
  proof (cases "propertyChangeHandlers dc K")
    case None
    with rest show ?thesis
      by (simp add: handle_changed_component_def io_bind_def io_return_def)
  next
    case (Some h)
    with resolves obtain r where "h d ver = Inr r" by auto
    with Some rest show ?thesis
      by (simp add: handle_changed_component_def io_bind_def io_return_def)
  qed
qed

subsection \<open>A whole notification\<close>

lemma handle_changed_component_settles:
  assumes transport: "\<forall>patch. reported_update dc patch = None"
    and resolves: "component_handlers_resolve dc ver"
    and prints: "acknowledged_values_print mk dc changes"
    and registered: "reg \<in> set (components dc)"
    and changed: "ch \<in> set (filterTwinMeta mk changes)"
  shows "snd (handle_changed_component mk dc ver reg ch) = Inr ()"
proof -
  obtain K c where reg: "reg = (K, c)" by (cases reg)
  obtain K' d where ch: "ch = (K', d)" by (cases ch)
  show ?thesis
  proof (cases "K' = K")
    case False
    then show ?thesis by (simp add: reg ch handle_changed_component_other)
  next
    case True
    from resolves registered
    have handler: "\<forall>h. propertyChangeHandlers dc K = Some h \<longrightarrow> (\<exists>r. h d ver = Inr r)"
      unfolding component_handlers_resolve_def reg by blast
    from prints registered changed
    have "\<forall>P v. (P, v) \<in> set (filterTwinMeta mk d) \<and> P \<in> set (writeableProperties c)
                   \<longrightarrow> (\<exists>text. to_string v = Inr text)"
      unfolding acknowledged_values_print_def reg ch True by blast
    with transport handler show ?thesis
      by (simp add: reg ch True handle_changed_component_same)
  qed
qed

lemma on_desired_properties_settles:
  assumes version: "get_prop changes TWIN_VERSION_KEY = Inr ver"
    and transport: "\<forall>patch. reported_update dc patch = None"
    and resolves: "component_handlers_resolve dc ver"
    and prints: "acknowledged_values_print mk dc changes"
  shows "on_desired_properties mk dc changes =
           (DesiredPropsVersion ver #
              concat (map (\<lambda>reg. concat (map (\<lambda>ch. fst (handle_changed_component mk dc ver reg ch))
                                             (filterTwinMeta mk changes)))
                        (components dc)),
            Inr ())"
proof -
  have inner: "io_for (filterTwinMeta mk changes) (handle_changed_component mk dc ver reg) =
      (concat (map (\<lambda>ch. fst (handle_changed_component mk dc ver reg ch))
                 (filterTwinMeta mk changes)), Inr ())"
    if "reg \<in> set (components dc)" for reg
  proof (rule io_for_all_ok, rule ballI)
    fix ch
    assume "ch \<in> set (filterTwinMeta mk changes)"
    with transport resolves prints that
    show "snd (handle_changed_component mk dc ver reg ch) = Inr ()"
      by (rule handle_changed_component_settles)
  qed
  then have "\<forall>reg \<in> set (components dc).
      snd (io_for (filterTwinMeta mk changes) (handle_changed_component mk dc ver reg)) = Inr ()"
    by simp
  then have "handleChangedComponentProperties mk dc ver (filterTwinMeta mk changes) =
      (concat (map (\<lambda>reg. fst (io_for (filterTwinMeta mk changes)
                                   (handle_changed_component mk dc ver reg)))
                 (components dc)), Inr ())"
    unfolding handleChangedComponentProperties_def by (rule io_for_all_ok)
  also have "concat (map (\<lambda>reg. fst (io_for (filterTwinMeta mk changes)
                                   (handle_changed_component mk dc ver reg)))
                 (components dc))
      = concat (map (\<lambda>reg. concat (map (\<lambda>ch. fst (handle_changed_component mk dc ver reg ch))
                                       (filterTwinMeta mk changes)))
                  (components dc))"
    using inner by (intro arg_cong [where f = concat] map_cong) simp_all
  finally have all: "handleChangedComponentProperties mk dc ver (filterTwinMeta mk changes) =
      (concat (map (\<lambda>reg. concat (map (\<lambda>ch. fst (handle_changed_component mk dc ver reg ch))
                                       (filterTwinMeta mk changes)))
                  (components dc)), Inr ())" .
  show ?thesis
  proof (cases "components dc = []")
    case True
    with version show ?thesis
      by (simp add: on_desired_properties_def io_bind_def io_return_def)
  next
    case False
    with version all show ?thesis
      by (simp add: on_desired_properties_def io_bind_def)
  qed
qed

lemma no_report_elsewhere:
  assumes "ev \<in> set (fst (acknowledge_property mk dc K c ver (P', v')))"
    and "K \<noteq> C \<or> (P \<notin> fst ` set (TWIN_COMPONENT_MARKER mk) \<and> P' \<noteq> P)"
  shows "\<not> reports_property C P ev"
proof -
  from assms(1) have "ev = PropertyChangeHandlerCalled P' v' ver
      \<or> (\<exists>env. ev = ReportedUpdate (component_patch mk K (JObj [(P', JObj env)])))"
    using acknowledge_property_events by blast
  then show ?thesis
  proof
    assume "ev = PropertyChangeHandlerCalled P' v' ver"
    then show ?thesis by simp
  next
    assume "\<exists>env. ev = ReportedUpdate (component_patch mk K (JObj [(P', JObj env)]))"
    then obtain env where "ev = ReportedUpdate (component_patch mk K (JObj [(P', JObj env)]))"
      by blast
    with assms(2) show ?thesis
      by (auto simp add: patch_mentions_component_patch)
  qed
qed


subsection \<open>Values of built objects\<close>





subsection \<open>Evaluating the examples\<close>

lemmas dispatch_unfold =
  on_desired_properties_def handleChangedComponentProperties_def
  handle_changed_component_def acknowledge_property_def reportComponentProperties_def
  reportProperties_def component_patch_def success_ack_def failure_ack_def
  success_envelope_def failure_envelope_def io_lift_def io_bind_def
  io_catch_def io_return_def filterTwinMeta_def is_twin_meta_def startsWith_def
  TWIN_VERSION_KEY_def assign_all_def obj_set_def array_index_def digit_value_def
  addComponentChangeHandler_def
  addComponentPropertyChangeHandler_def

lemmas example_unfold =
  example_markers_def example_client_def example_changes_def example_subtree_def compA_def
  temp_patch_def

lemma example_run:
  "on_desired_properties example_markers example_client example_changes =
     ([DesiredPropsVersion (JNum ''5''),
       ReportedUpdate
         (temp_patch [(''value'', JNum ''21''), (''ac'', JNum ''200''),
                      (''ad'', JStr ''Successfully updated (temp) to (21)''),
                      (''av'', JNum ''5'')])],
      Inr ())"
  by (simp add: dispatch_unfold example_unfold)


lemma throwing_run:
  "on_desired_properties example_markers throwing_client example_changes =
     ([DesiredPropsVersion (JNum ''5''),
       PropertyChangeHandlerCalled ''temp'' (JNum ''21'') (JNum ''5''),
       ReportedUpdate
         (temp_patch [(''value'', JNum ''21''), (''ac'', JNum ''400''),
                      (''ad'', JStr ''Updating (temp) state to (21) failed''),
                      (''av'', JNum ''5'')])],
      Inr ())"
  by (simp add: throwing_client_def dispatch_unfold example_unfold)




subsection \<open>Acknowledgement of writable properties\<close>



lemma reports_own_property:
  "reports_property C P (ReportedUpdate (component_patch mk C (JObj [(P, X)])))"
  by (simp add: patch_mentions_component_patch)














subsection \<open>Registration of property handlers\<close>

lemma compound_key_differs: "cKey @ ''|'' @ propertyKey \<noteq> propertyKey"
proof
  assume "cKey @ ''|'' @ propertyKey = propertyKey"
  then have "length (cKey @ ''|'' @ propertyKey) = length propertyKey" by simp
  then show False by simp
qed

lemma registered_run:
  "on_desired_properties example_markers registered_client example_changes =
     ([DesiredPropsVersion (JNum ''5''),
       ReportedUpdate
         (temp_patch [(''value'', JNum ''21''), (''ac'', JNum ''200''),
                      (''ad'', JStr ''Successfully updated (temp) to (21)''),
                      (''av'', JNum ''5'')])],
      Inr ())"
  by (simp add: registered_client_def dispatch_unfold example_unfold)

text \<open>
  Claim C2 fails on the code. \<open>addComponentPropertyChangeHandler C P h\<close> stores \<open>h\<close>
  under the key \<open>C|P\<close>, while the dispatch looks a property handler up under \<open>P\<close> alone.
  So registering \<open>h\<close> changes neither the handler found for \<open>P\<close> nor the acknowledgement
  of \<open>P\<close> in any component; in the example the handler registered for \<open>temp\<close> of
  \<open>compA\<close>, which would answer \<open>{ac: 202}\<close>, is never called and the default envelope
  with \<open>ac\<close> 200 is reported.
\<close>

theorem registered_property_handler_not_found:
  "propertyChangeHandlers (addComponentPropertyChangeHandler C P h dc) P
     = propertyChangeHandlers dc P
   \<and> acknowledge_property mk (addComponentPropertyChangeHandler C P h dc) K co ver (P, v)
       = acknowledge_property mk dc K co ver (P, v)
   \<and> propertyChangeHandlers registered_client ''temp'' = None
   \<and> on_desired_properties example_markers registered_client example_changes =
       ([DesiredPropsVersion (JNum ''5''),
         ReportedUpdate
           (temp_patch [(''value'', JNum ''21''), (''ac'', JNum ''200''),
                        (''ad'', JStr ''Successfully updated (temp) to (21)''),
                        (''av'', JNum ''5'')])],
        Inr ())"
proof -
  have same: "propertyChangeHandlers (addComponentPropertyChangeHandler C P h dc) P
      = propertyChangeHandlers dc P"
    using compound_key_differs [of C P]
    by (simp add: addComponentPropertyChangeHandler_def)
  have transport: "reported_update (addComponentPropertyChangeHandler C P h dc) = reported_update dc"
    by (simp add: addComponentPropertyChangeHandler_def)
  have step: "acknowledge_property mk (addComponentPropertyChangeHandler C P h dc) K co ver (P, v)
      = acknowledge_property mk dc K co ver (P, v)"
    by (simp add: acknowledge_property_def reportComponentProperties_def reportProperties_def
        same transport)
  have none: "propertyChangeHandlers registered_client ''temp'' = None"
    by (simp add: registered_client_def addComponentPropertyChangeHandler_def example_client_def)
  from same step none registered_run show ?thesis by simp
qed

subsection \<open>Events of a notification\<close>

lemma on_desired_properties_events:
  assumes "ev \<in> set (fst (on_desired_properties mk dc changes))"
  shows "\<exists>ver. get_prop changes TWIN_VERSION_KEY = Inr ver
           \<and> (ev = DesiredPropsVersion ver
              \<or> (\<exists>reg \<in> set (components dc). \<exists>ch \<in> set (filterTwinMeta mk changes).
                    ev \<in> set (fst (handle_changed_component mk dc ver reg ch))))"
proof (cases "get_prop changes TWIN_VERSION_KEY")
  case (Inl e)
  with assms show ?thesis by (simp add: on_desired_properties_def)
next
  case (Inr ver)
  define rest where "rest = (\<lambda>u :: unit. if components dc \<noteq> []
      then handleChangedComponentProperties mk dc ver (filterTwinMeta mk changes)
      else io_return ())"
  have "on_desired_properties mk dc changes = io_bind ([DesiredPropsVersion ver], Inr ()) rest"
    using Inr by (simp add: on_desired_properties_def rest_def)
  with assms io_bind_events [of "([DesiredPropsVersion ver], Inr ())" rest]
  have "ev = DesiredPropsVersion ver \<or> (\<exists>u. ev \<in> set (fst (rest u)))"
    by auto
  then show ?thesis
  proof
    assume "ev = DesiredPropsVersion ver"
    with Inr show ?thesis by simp
  next
    assume "\<exists>u. ev \<in> set (fst (rest u))"
    then have "ev \<in> set (fst (handleChangedComponentProperties mk dc ver
        (filterTwinMeta mk changes)))"
      by (cases "components dc = []") (simp_all add: rest_def io_return_def)
    then have "\<exists>reg \<in> set (components dc).
        ev \<in> set (fst (io_for (filterTwinMeta mk changes)
                         (handle_changed_component mk dc ver reg)))"
      unfolding handleChangedComponentProperties_def by (rule io_for_events)
    then obtain reg where reg: "reg \<in> set (components dc)"
      and "ev \<in> set (fst (io_for (filterTwinMeta mk changes)
                         (handle_changed_component mk dc ver reg)))"
      by blast
    then have "\<exists>ch \<in> set (filterTwinMeta mk changes).
        ev \<in> set (fst (handle_changed_component mk dc ver reg ch))"
      by (intro io_for_events)
    with reg Inr show ?thesis by blast
  qed
qed

text \<open>Every event of a notification, traced to the loop iteration that caused it.\<close>

lemma notification_event_cases:
  assumes "ev \<in> set (fst (on_desired_properties mk dc changes))"
  obtains (version) ver where "ev = DesiredPropsVersion ver"
  | (component) K c d ver where "(K, c) \<in> set (components dc)"
      "(K, d) \<in> set (filterTwinMeta mk changes)" "propertyChangeHandlers dc K \<noteq> None"
      "ev = ComponentChangeHandlerCalled K d ver"
  | (property) K c d ver P v where "(K, c) \<in> set (components dc)"
      "(K, d) \<in> set (filterTwinMeta mk changes)" "(P, v) \<in> set (filterTwinMeta mk d)"
      "ev \<in> set (fst (acknowledge_property mk dc K c ver (P, v)))"
proof -
  from assms obtain ver where
    "ev = DesiredPropsVersion ver
     \<or> (\<exists>reg \<in> set (components dc). \<exists>ch \<in> set (filterTwinMeta mk changes).
           ev \<in> set (fst (handle_changed_component mk dc ver reg ch)))"
    using on_desired_properties_events by blast
  then show thesis
  proof
    assume "ev = DesiredPropsVersion ver"
    then show thesis by (rule version)
  next
    assume "\<exists>reg \<in> set (components dc). \<exists>ch \<in> set (filterTwinMeta mk changes).
           ev \<in> set (fst (handle_changed_component mk dc ver reg ch))"
    then obtain K c K' d where reg: "(K, c) \<in> set (components dc)"
      and ch: "(K', d) \<in> set (filterTwinMeta mk changes)"
      and ev: "ev \<in> set (fst (handle_changed_component mk dc ver (K, c) (K', d)))"
      by auto
    from ev have same: "K' = K"
      and what: "(ev = ComponentChangeHandlerCalled K d ver \<and> propertyChangeHandlers dc K \<noteq> None)
         \<or> (\<exists>pv \<in> set (filterTwinMeta mk d).
               ev \<in> set (fst (acknowledge_property mk dc K c ver pv)))"
      using handle_changed_component_events by blast+
    from what show thesis
    proof
      assume "ev = ComponentChangeHandlerCalled K d ver \<and> propertyChangeHandlers dc K \<noteq> None"
      with reg ch same show thesis by (intro component) auto
    next
      assume "\<exists>pv \<in> set (filterTwinMeta mk d).
               ev \<in> set (fst (acknowledge_property mk dc K c ver pv))"
      then obtain P v where "(P, v) \<in> set (filterTwinMeta mk d)"
        and "ev \<in> set (fst (acknowledge_property mk dc K c ver (P, v)))"
        by auto
      with reg ch same show thesis by (intro property) auto
    qed
  qed
qed

text \<open>
  Claim C5. A property \<open>P\<close> that is not among the writable properties of the registered
  component \<open>C\<close> is never acknowledged: no reported patch of the notification mentions
  \<open>P\<close> under \<open>C\<close>. Every call of \<open>C\<close>'s component-change handler is handed the subtree of
  the delta as it arrived, which contains \<open>P\<close>; and the call takes place when a handler
  is registered for \<open>C\<close>, \<open>C\<close> is not a metadata key, the transport accepts the reports,
  no component-change handler throws and every value that the notification carries for
  a writable property of a registered component converts to a string without throwing.
\<close>

theorem non_writable_property_never_acknowledged:
  assumes "distinct (map fst (components dc))" and "(C, co) \<in> set (components dc)"
    and "P \<notin> set (writeableProperties co)"
    and "P \<notin> fst ` set (TWIN_COMPONENT_MARKER mk)"
    and "wf_props (own_entries changes)" and "(C, d) \<in> set (own_entries changes)"
    and "(P, v) \<in> set (own_entries d)"
  shows "(\<forall>ev \<in> set (fst (on_desired_properties mk dc changes)). \<not> reports_property C P ev)
         \<and> (\<forall>d' ver'. ComponentChangeHandlerCalled C d' ver'
                          \<in> set (fst (on_desired_properties mk dc changes))
                        \<longrightarrow> d' = d \<and> (P, v) \<in> set (own_entries d'))
         \<and> (\<not> is_twin_meta mk C \<and> propertyChangeHandlers dc C \<noteq> None
             \<and> get_prop changes TWIN_VERSION_KEY = Inr ver
             \<and> (\<forall>patch. reported_update dc patch = None)
             \<and> component_handlers_resolve dc ver
             \<and> acknowledged_values_print mk dc changes
            \<longrightarrow> ComponentChangeHandlerCalled C d ver
                  \<in> set (fst (on_desired_properties mk dc changes)))"
proof -
  have never: "\<forall>ev \<in> set (fst (on_desired_properties mk dc changes)). \<not> reports_property C P ev"
  proof
    fix ev
    assume ev: "ev \<in> set (fst (on_desired_properties mk dc changes))"
    from ev show "\<not> reports_property C P ev"
    proof (cases rule: notification_event_cases)
      case (version ver)
      then show ?thesis by simp
    next
      case (component K c d ver)
      then show ?thesis by simp
    next
      case (property K c d' ver' P' v')
      show ?thesis
      proof (cases "K = C")
        case False
        with property(4) show ?thesis by (simp add: no_report_elsewhere)
      next
        case True
        with property(1) assms(1,2) have "c = co"
          by (meson eq_key_imp_eq_value)
        with property(4) True have "P' \<in> set (writeableProperties co)"
          using acknowledge_property_events by blast
        with assms(3) have "P' \<noteq> P" by auto
        with property(4) assms(4) show ?thesis by (simp add: no_report_elsewhere)
      qed
    qed
  qed
  have handed: "\<forall>d' ver'. ComponentChangeHandlerCalled C d' ver'
                          \<in> set (fst (on_desired_properties mk dc changes))
                        \<longrightarrow> d' = d \<and> (P, v) \<in> set (own_entries d')"
  proof (intro allI impI)
    fix d' ver'
    assume called: "ComponentChangeHandlerCalled C d' ver'
        \<in> set (fst (on_desired_properties mk dc changes))"
    from called have "(C, d') \<in> set (filterTwinMeta mk changes)"
    proof (cases rule: notification_event_cases)
      case (version ver)
      then show ?thesis by simp
    next
      case (component K c d'' ver)
      then show ?thesis by simp
    next
      case (property K c d'' ver P' v')
      then have "ComponentChangeHandlerCalled C d' ver' = PropertyChangeHandlerCalled P' v' ver
          \<or> (\<exists>env. ComponentChangeHandlerCalled C d' ver'
                    = ReportedUpdate (component_patch mk K (JObj [(P', JObj env)])))"
        using acknowledge_property_events by blast
      then show ?thesis by simp
    qed
    then have "(C, d') \<in> set (own_entries changes)"
      using filterTwinMeta_subset by blast
    with assms(5,6) have "d' = d"
      unfolding wf_props_def by (meson eq_key_imp_eq_value)
    with assms(7) show "d' = d \<and> (P, v) \<in> set (own_entries d')" by simp
  qed
  have takes_place: "\<not> is_twin_meta mk C \<and> propertyChangeHandlers dc C \<noteq> None
             \<and> get_prop changes TWIN_VERSION_KEY = Inr ver
             \<and> (\<forall>patch. reported_update dc patch = None)
             \<and> component_handlers_resolve dc ver
             \<and> acknowledged_values_print mk dc changes
            \<longrightarrow> ComponentChangeHandlerCalled C d ver
                  \<in> set (fst (on_desired_properties mk dc changes))"
  proof
    assume hyps: "\<not> is_twin_meta mk C \<and> propertyChangeHandlers dc C \<noteq> None
               \<and> get_prop changes TWIN_VERSION_KEY = Inr ver
               \<and> (\<forall>patch. reported_update dc patch = None)
               \<and> component_handlers_resolve dc ver
               \<and> acknowledged_values_print mk dc changes"
    let ?H = "\<lambda>reg ch. fst (handle_changed_component mk dc ver reg ch)"
    from hyps have run: "fst (on_desired_properties mk dc changes) =
        DesiredPropsVersion ver #
          concat (map (\<lambda>reg. concat (map (?H reg) (filterTwinMeta mk changes))) (components dc))"
      by (simp add: on_desired_properties_settles)
    from hyps assms(6) have in_delta: "(C, d) \<in> set (filterTwinMeta mk changes)"
      by (simp add: in_filterTwinMeta)
    from hyps obtain h where h: "propertyChangeHandlers dc C = Some h" by auto
    from hyps assms(2)
    have resolves: "\<forall>h. propertyChangeHandlers dc C = Some h \<longrightarrow> (\<exists>r. h d ver = Inr r)"
      unfolding component_handlers_resolve_def by blast
    from hyps assms(2) in_delta
    have prints: "\<forall>P v. (P, v) \<in> set (filterTwinMeta mk d) \<and> P \<in> set (writeableProperties co)
                   \<longrightarrow> (\<exists>text. to_string v = Inr text)"
      unfolding acknowledged_values_print_def by blast
    from hyps have transport: "\<forall>patch. reported_update dc patch = None"
      by simp
    from handle_changed_component_same [OF transport resolves prints]
    have "ComponentChangeHandlerCalled C d ver \<in> set (?H (C, co) (C, d))"
      by (simp add: h)
    with assms(2) in_delta
    have "ComponentChangeHandlerCalled C d ver
        \<in> set (concat (map (\<lambda>reg. concat (map (?H reg) (filterTwinMeta mk changes)))
                         (components dc)))"
      by force
    with run show "ComponentChangeHandlerCalled C d ver
        \<in> set (fst (on_desired_properties mk dc changes))"
      by simp
  qed
  from never handed takes_place show ?thesis by (intro conjI)
qed

lemma observing_run:
  "on_desired_properties example_markers observing_client mixed_changes =
     ([DesiredPropsVersion (JNum ''5''),
       ComponentChangeHandlerCalled ''compA'' mixed_subtree (JNum ''5''),
       ReportedUpdate
         (temp_patch [(''value'', JNum ''21''), (''ac'', JNum ''200''),
                      (''ad'', JStr ''Successfully updated (temp) to (21)''),
                      (''av'', JNum ''5'')])],
      Inr ())"
  by (simp add: observing_client_def mixed_changes_def mixed_subtree_def dispatch_unfold
      example_unfold)

lemma observing_hypotheses:
  "distinct (map fst (components observing_client))"
  "(''compA'', compA) \<in> set (components observing_client)"
  "''mode'' \<notin> set (writeableProperties compA)"
  "''mode'' \<notin> fst ` set (TWIN_COMPONENT_MARKER example_markers)"
  "wf_props (own_entries mixed_changes)"
  "(''compA'', mixed_subtree) \<in> set (own_entries mixed_changes)"
  "(''mode'', JStr ''eco'') \<in> set (own_entries mixed_subtree)"
  by (simp_all add: observing_client_def addComponentChangeHandler_def mixed_changes_def
      mixed_subtree_def example_unfold wf_props_def key_before_def array_index_def
      digit_value_def)

lemma observing_settles:
  "\<not> is_twin_meta example_markers ''compA''"
  "propertyChangeHandlers observing_client ''compA'' \<noteq> None"
  "get_prop mixed_changes TWIN_VERSION_KEY = Inr (JNum ''5'')"
  "\<forall>patch. reported_update observing_client patch = None"
  "component_handlers_resolve observing_client (JNum ''5'')"
  by (simp_all add: observing_client_def addComponentChangeHandler_def mixed_changes_def
      example_unfold is_twin_meta_def startsWith_def TWIN_VERSION_KEY_def
      component_handlers_resolve_def)

lemma observing_values_print:
  "acknowledged_values_print example_markers observing_client mixed_changes"
  by (auto simp add: acknowledged_values_print_def observing_client_def
      addComponentChangeHandler_def mixed_changes_def mixed_subtree_def example_unfold
      filterTwinMeta_def is_twin_meta_def startsWith_def TWIN_VERSION_KEY_def)

theorem non_writable_property_never_acknowledged_witness:
  "distinct (map fst (components observing_client))
   \<and> (''compA'', compA) \<in> set (components observing_client)
   \<and> ''mode'' \<notin> set (writeableProperties compA)
   \<and> ''mode'' \<notin> fst ` set (TWIN_COMPONENT_MARKER example_markers)
   \<and> wf_props (own_entries mixed_changes)
   \<and> (''compA'', mixed_subtree) \<in> set (own_entries mixed_changes)
   \<and> (''mode'', JStr ''eco'') \<in> set (own_entries mixed_subtree)
   \<and> \<not> is_twin_meta example_markers ''compA''
   \<and> propertyChangeHandlers observing_client ''compA'' \<noteq> None
   \<and> get_prop mixed_changes TWIN_VERSION_KEY = Inr (JNum ''5'')
   \<and> (\<forall>patch. reported_update observing_client patch = None)
   \<and> component_handlers_resolve observing_client (JNum ''5'')
   \<and> acknowledged_values_print example_markers observing_client mixed_changes
   \<and> filter (reports_property ''compA'' ''mode'')
         (fst (on_desired_properties example_markers observing_client mixed_changes)) = []
   \<and> ComponentChangeHandlerCalled ''compA'' mixed_subtree (JNum ''5'')
         \<in> set (fst (on_desired_properties example_markers observing_client mixed_changes))"
proof -
  note inst = non_writable_property_never_acknowledged [OF observing_hypotheses,
      where ver = "JNum ''5''"]
  from inst have "\<forall>ev \<in> set (fst (on_desired_properties example_markers observing_client
      mixed_changes)). \<not> reports_property ''compA'' ''mode'' ev"
    by blast
  then have none: "filter (reports_property ''compA'' ''mode'')
      (fst (on_desired_properties example_markers observing_client mixed_changes)) = []"
    by (simp add: filter_empty_conv)
  from inst observing_settles observing_values_print
  have called: "ComponentChangeHandlerCalled ''compA'' mixed_subtree (JNum ''5'')
      \<in> set (fst (on_desired_properties example_markers observing_client mixed_changes))"
    by blast
  from none called observing_hypotheses observing_settles observing_values_print
  show ?thesis by simp
qed

subsection \<open>The key \<open>update\<close>\<close>

lemma update_is_twin_meta: "is_twin_meta mk ''update''"
  by (simp add: is_twin_meta_def)

lemma filterTwinMeta_drops_update: "''update'' \<notin> fst ` set (filterTwinMeta mk t)"
proof
  assume "''update'' \<in> fst ` set (filterTwinMeta mk t)"
  then obtain v where "(''update'', v) \<in> set (filterTwinMeta mk t)" by auto
  then have "\<not> is_twin_meta mk ''update''" using filterTwinMeta_subset by blast
  then show False by (simp add: update_is_twin_meta)
qed

lemma map_entries_keys: "map_entries f es = Inr es' \<Longrightarrow> map fst es' = map fst es"
proof (induction es arbitrary: es')
  case Nil
  then show ?case by simp
next
  case (Cons p es)
  obtain k v where p: "p = (k, v)" by (cases p)
  from Cons.prems obtain v' r' where "f v = Inr v'" and r': "map_entries f es = Inr r'"
    and "es' = (k, v') # r'"
    by (auto simp add: p split: sum.splits)
  with Cons.IH [OF r'] show ?case by (simp add: p)
qed

lemma normalizeComponentState_drops_update:
  assumes "normalizeComponentState mk t = Inr r"
  shows "\<exists>ps. r = JObj ps \<and> ''update'' \<notin> fst ` set ps"
proof -
  let ?keep = "\<lambda>(key, value :: jsval). key \<noteq> TWIN_VERSION_KEY
      \<and> key \<noteq> TWIN_COMPONENT_MARKER_KEY mk \<and> key \<noteq> ''update''"
  from assms obtain es es' where "Object_entries t = Inr es"
    and mapped: "map_entries normalizeWritablePropertyAck (filter ?keep es) = Inr es'"
    and r: "r = Object_fromEntries es'"
    by (auto simp add: normalizeComponentState_def split: sum.splits)
  from mapped have "map fst es' = map fst (filter ?keep es)"
    by (rule map_entries_keys)
  then have "set (map fst es') = set (map fst (filter ?keep es))" by simp
  then have "''update'' \<notin> fst ` set es'" by auto
  then have "''update'' \<notin> fst ` set (assign_all [] es')"
    by (simp add: keys_assign_all)
  with r show ?thesis by (simp add: Object_fromEntries_def)
qed

lemma fetched_properties_drop_update:
  assumes "getReportedProperties mk fetched = Inr r \<or> getDesiredProperties mk fetched = Inr r"
  shows "\<exists>ps. r = JObj ps \<and> ''update'' \<notin> fst ` set ps"
proof -
  from assms obtain t where "r = Object_fromEntries (filterTwinMeta mk t)"
    by (auto simp add: getReportedProperties_def getDesiredProperties_def split: sum.splits)
  then show ?thesis
    by (simp add: Object_fromEntries_def keys_assign_all filterTwinMeta_drops_update)
qed

lemma component_state_drops_update:
  assumes "component_state mk co fetchedProps = Inr r"
  shows "r = JNull \<or> (\<exists>ps. r = JObj ps \<and> ''update'' \<notin> fst ` set ps)"
proof -
  from assms obtain sub where
    "(\<not> truthy sub \<and> r = JNull) \<or> normalizeComponentState mk sub = Inr r"
    by (auto simp add: component_state_def split: sum.splits if_splits)
  then show ?thesis
    using normalizeComponentState_drops_update by blast
qed

lemma update_run_observed:
  "on_desired_properties example_markers update_observing_client update_changes =
     ([DesiredPropsVersion (JNum ''5''),
       ComponentChangeHandlerCalled ''compA''
         (JObj [(''$version'', JNum ''5''), (''update'', JNum ''1'')]) (JNum ''5'')],
      Inr ())"
  by (simp add: update_observing_client_def update_client_def update_changes_def
      dispatch_unfold example_unfold)

text \<open>
  Claim C9, as the code has it. \<open>filterTwinMeta\<close> and \<open>normalizeComponentState\<close> drop
  every entry whose key is \<open>update\<close>. Hence such a property never reaches the
  per-property dispatch (no property handler is called for it, no component named
  \<open>update\<close> is dispatched, no reported patch mentions it), it is absent from the top level
  of what \<open>getReportedProperties\<close> and \<open>getDesiredProperties\<close> return, and it is
  absent from the state that \<open>getReportedState\<close> and \<open>getDesiredState\<close> return. A
  component-change handler, however, is handed the entry of the delta as it arrived.
\<close>

theorem update_key_dropped:
  "''update'' \<notin> fst ` set (filterTwinMeta mk t)
   \<and> (\<forall>r. normalizeComponentState mk t = Inr r
            \<longrightarrow> (\<exists>ps. r = JObj ps \<and> ''update'' \<notin> fst ` set ps))
   \<and> (\<forall>r. getReportedProperties mk fetched = Inr r \<or> getDesiredProperties mk fetched = Inr r
            \<longrightarrow> (\<exists>ps. r = JObj ps \<and> ''update'' \<notin> fst ` set ps))
   \<and> (\<forall>r. getReportedState mk co fetched = Inr r \<or> getDesiredState mk co fetched = Inr r
            \<longrightarrow> r = JNull \<or> (\<exists>ps. r = JObj ps \<and> ''update'' \<notin> fst ` set ps))
   \<and> (\<forall>ev \<in> set (fst (on_desired_properties mk dc changes)).
         (\<forall>x ver. ev \<noteq> PropertyChangeHandlerCalled ''update'' x ver
                   \<and> ev \<noteq> ComponentChangeHandlerCalled ''update'' x ver)
         \<and> (''update'' \<notin> fst ` set (TWIN_COMPONENT_MARKER mk)
              \<longrightarrow> (\<forall>C. \<not> reports_property C ''update'' ev))
         \<and> (\<forall>K x ver. ev = ComponentChangeHandlerCalled K x ver
                         \<longrightarrow> (K, x) \<in> set (own_entries changes)))"
proof -
  have state: "r = JNull \<or> (\<exists>ps. r = JObj ps \<and> ''update'' \<notin> fst ` set ps)"
    if "getReportedState mk co fetched = Inr r \<or> getDesiredState mk co fetched = Inr r" for r
    using that component_state_drops_update
    unfolding getReportedState_def getDesiredState_def by blast
  have events: "(\<forall>x ver. ev \<noteq> PropertyChangeHandlerCalled ''update'' x ver
                   \<and> ev \<noteq> ComponentChangeHandlerCalled ''update'' x ver)
         \<and> (''update'' \<notin> fst ` set (TWIN_COMPONENT_MARKER mk)
              \<longrightarrow> (\<forall>C. \<not> reports_property C ''update'' ev))
         \<and> (\<forall>K x ver. ev = ComponentChangeHandlerCalled K x ver
                         \<longrightarrow> (K, x) \<in> set (own_entries changes))"
    if ev: "ev \<in> set (fst (on_desired_properties mk dc changes))" for ev
    using ev
  proof (cases rule: notification_event_cases)
    case (version ver)
    then show ?thesis by simp
  next
    case (component K c d ver)
    from component(2) have "K \<noteq> ''update''"
      using filterTwinMeta_drops_update [of mk changes] by force
    moreover from component(2) have "(K, d) \<in> set (own_entries changes)"
      using filterTwinMeta_subset by blast
    ultimately show ?thesis using component(4) by simp
  next
    case (property K c d ver P v)
    from property(3) have P: "P \<noteq> ''update''"
      using filterTwinMeta_drops_update [of mk d] by force
    from property(4) have "ev = PropertyChangeHandlerCalled P v ver
        \<or> (\<exists>env. ev = ReportedUpdate (component_patch mk K (JObj [(P, JObj env)])))"
      using acknowledge_property_events by blast
    then show ?thesis
    proof
      assume "ev = PropertyChangeHandlerCalled P v ver"
      with P show ?thesis by simp
    next
      assume "\<exists>env. ev = ReportedUpdate (component_patch mk K (JObj [(P, JObj env)]))"
      then obtain env where "ev = ReportedUpdate (component_patch mk K (JObj [(P, JObj env)]))"
        by blast
      with P show ?thesis by (auto simp add: patch_mentions_component_patch)
    qed
  qed
  show ?thesis
    using filterTwinMeta_drops_update [of mk t] normalizeComponentState_drops_update [of mk t]
      fetched_properties_drop_update [of mk fetched] state events
    by (intro conjI allI ballI impI) blast+
qed

lemmas state_unfold =
  getReportedState_def getDesiredState_def component_state_def getReportedProperties_def
  getDesiredProperties_def normalizeComponentState_def normalizeWritablePropertyAck_def
  isWritablePropertyResponse_def and_then_def Object_entries_def Object_fromEntries_def
  filterTwinMeta_def is_twin_meta_def startsWith_def TWIN_VERSION_KEY_def assign_all_def
  obj_set_def array_index_def digit_value_def example_twin_def example_markers_def compA_def

lemma example_states:
  "getReportedState example_markers compA (Inr example_twin) = Inr (JObj [(''temp'', JNum ''21'')])"
  "getDesiredState example_markers compA (Inr example_twin) = Inr (JObj [(''temp'', JNum ''21'')])"
  by (simp_all add: state_unfold)

theorem update_key_dropped_witness:
  "getReportedState example_markers compA (Inr example_twin) = Inr (JObj [(''temp'', JNum ''21'')])
   \<and> getDesiredState example_markers compA (Inr example_twin) = Inr (JObj [(''temp'', JNum ''21'')])
   \<and> ''update'' \<notin> fst ` set (filterTwinMeta example_markers (properties_reported example_twin))
   \<and> ComponentChangeHandlerCalled ''compA''
         (JObj [(''$version'', JNum ''5''), (''update'', JNum ''1'')]) (JNum ''5'')
       \<in> set (fst (on_desired_properties example_markers update_observing_client update_changes))
   \<and> (''compA'', JObj [(''$version'', JNum ''5''), (''update'', JNum ''1'')])
       \<in> set (own_entries update_changes)
   \<and> \<not> reports_property ''compA'' ''update''
         (ComponentChangeHandlerCalled ''compA''
            (JObj [(''$version'', JNum ''5''), (''update'', JNum ''1'')]) (JNum ''5''))"
proof -
  have called: "ComponentChangeHandlerCalled ''compA''
         (JObj [(''$version'', JNum ''5''), (''update'', JNum ''1'')]) (JNum ''5'')
       \<in> set (fst (on_desired_properties example_markers update_observing_client update_changes))"
    by (simp add: update_run_observed)
  note inst = update_key_dropped [of example_markers "properties_reported example_twin"
      "Inr example_twin" compA update_observing_client update_changes]
  from inst have "''update'' \<notin> fst ` set (filterTwinMeta example_markers
      (properties_reported example_twin))"
    by blast
  moreover from inst called
  have "(''compA'', JObj [(''$version'', JNum ''5''), (''update'', JNum ''1'')])
      \<in> set (own_entries update_changes)"
    by blast
  ultimately show ?thesis using example_states called by simp
qed

text \<open>
  The claim as stated fails for the component-change handler: the delta it is handed
  still contains the property named \<open>update\<close> (and the version key).
\<close>

theorem update_key_dropped_counterexample:
  "on_desired_properties example_markers update_observing_client update_changes =
     ([DesiredPropsVersion (JNum ''5''),
       ComponentChangeHandlerCalled ''compA''
         (JObj [(''$version'', JNum ''5''), (''update'', JNum ''1'')]) (JNum ''5'')],
      Inr ())
   \<and> in_op ''update'' (JObj [(''$version'', JNum ''5''), (''update'', JNum ''1'')]) = Inr True"
  using update_run_observed by simp

section \<open>Properties of the registry\<close>

lemma map_of_Map_set: "map_of (Map_set k v m) k' = (if k' = k then Some v else map_of m k')"
proof (induction m)
  case Nil
  show ?case by simp
next
  case (Cons p m)
  obtain a b where p: "p = (a, b)" by (cases p)
  show ?case using Cons.IH by (cases "k' = k") (auto simp add: p)
qed

lemma keys_Map_set:
  "map fst (Map_set k v m) = (if k \<in> fst ` set m then map fst m else map fst m @ [k])"
proof (induction m)
  case Nil
  show ?case by simp
next
  case (Cons p m)
  obtain a b where p: "p = (a, b)" by (cases p)
  show ?case using Cons.IH by (auto simp add: p)
qed

lemma distinct_Map_set: "distinct (map fst m) \<Longrightarrow> distinct (map fst (Map_set k v m))"
  by (simp add: keys_Map_set)

text \<open>
  Claim C6, as the code has it. Registering a component whose key is already
  registered does not fail. When the device has a model id and the constructor
  returns, \<open>registerComponent\<close> returns the new instance and stores it under its key:
  it replaces an existing registration of that key in place and leaves the
  registrations of all other keys as they were. The only error that
  \<open>registerComponent\<close> itself raises is \<open>NoModelIdAssignedError\<close>, for a device without a
  model id.
\<close>

theorem registerComponent_replaces:
  "(falsy_modelId (modelId dc)
      \<longrightarrow> registerComponent componentCtor dc = Inl (NoModelIdAssignedError (deviceId dc)))
   \<and> (\<not> falsy_modelId (modelId dc) \<and> componentCtor dc = Inr (inst, dc')
      \<longrightarrow> (\<exists>dc''. registerComponent componentCtor dc = Inr (inst, dc'')
             \<and> map_of (components dc'') (componentKey inst) = Some inst
             \<and> (\<forall>k. k \<noteq> componentKey inst
                    \<longrightarrow> map_of (components dc'') k = map_of (components dc') k)
             \<and> (componentKey inst \<in> fst ` set (components dc')
                    \<longrightarrow> map fst (components dc'') = map fst (components dc'))
             \<and> (distinct (map fst (components dc'))
                    \<longrightarrow> distinct (map fst (components dc'')))))"
proof (intro conjI impI)
  assume "falsy_modelId (modelId dc)"
  then show "registerComponent componentCtor dc = Inl (NoModelIdAssignedError (deviceId dc))"
    by (simp add: registerComponent_def)
next
  assume ok: "\<not> falsy_modelId (modelId dc) \<and> componentCtor dc = Inr (inst, dc')"
  define dc'' where
    "dc'' = dc'\<lparr>components := Map_set (componentKey inst) inst (components dc')\<rparr>"
  from ok have "registerComponent componentCtor dc = Inr (inst, dc'')"
    by (simp add: registerComponent_def dc''_def)
  moreover have "map_of (components dc'') (componentKey inst) = Some inst"
    by (simp add: dc''_def map_of_Map_set)
  moreover have "\<forall>k. k \<noteq> componentKey inst
      \<longrightarrow> map_of (components dc'') k = map_of (components dc') k"
    by (simp add: dc''_def map_of_Map_set)
  moreover have "componentKey inst \<in> fst ` set (components dc')
      \<longrightarrow> map fst (components dc'') = map fst (components dc')"
    by (simp add: dc''_def keys_Map_set)
  moreover have "distinct (map fst (components dc')) \<longrightarrow> distinct (map fst (components dc''))"
    by (simp add: dc''_def distinct_Map_set)
  ultimately show "\<exists>dc''. registerComponent componentCtor dc = Inr (inst, dc'')
             \<and> map_of (components dc'') (componentKey inst) = Some inst
             \<and> (\<forall>k. k \<noteq> componentKey inst
                    \<longrightarrow> map_of (components dc'') k = map_of (components dc') k)
             \<and> (componentKey inst \<in> fst ` set (components dc')
                    \<longrightarrow> map fst (components dc'') = map fst (components dc'))
             \<and> (distinct (map fst (components dc'))
                    \<longrightarrow> distinct (map fst (components dc'')))"
    by blast
qed

lemma reregistered:
  "registerComponent compA_again_ctor example_client =
     Inr (compA_again, example_client\<lparr>components := [(''compA'', compA_again)]\<rparr>)"
  by (simp add: registerComponent_def compA_again_ctor_def compA_again_def example_client_def
      falsy_modelId_def)

theorem registerComponent_replaces_witness:
  "\<not> falsy_modelId (modelId example_client)
   \<and> compA_again_ctor example_client = Inr (compA_again, example_client)
   \<and> componentKey compA_again \<in> fst ` set (components example_client)
   \<and> distinct (map fst (components example_client))
   \<and> (\<exists>dc''. registerComponent compA_again_ctor example_client = Inr (compA_again, dc'')
         \<and> map_of (components dc'') ''compA'' = Some compA_again
         \<and> map fst (components dc'') = [''compA''])
   \<and> registerComponent compA_again_ctor (example_client\<lparr>modelId := None\<rparr>)
       = Inl (NoModelIdAssignedError ''dev-1'')"
proof -
  have hyps: "\<not> falsy_modelId (modelId example_client)"
    "compA_again_ctor example_client = Inr (compA_again, example_client)"
    "componentKey compA_again \<in> fst ` set (components example_client)"
    "distinct (map fst (components example_client))"
    by (simp_all add: example_client_def falsy_modelId_def compA_again_ctor_def compA_again_def)
  have key: "componentKey compA_again = ''compA''"
    and keys: "map fst (components example_client) = [''compA'']"
    by (simp_all add: compA_again_def example_client_def)
  have no_model: "falsy_modelId (modelId (example_client\<lparr>modelId := None\<rparr>))"
    and device: "deviceId (example_client\<lparr>modelId := None\<rparr>) = ''dev-1''"
    by (simp_all add: falsy_modelId_def example_client_def)
  from registerComponent_replaces
    [of example_client compA_again_ctor compA_again example_client] hyps key keys
  have "\<exists>dc''. registerComponent compA_again_ctor example_client = Inr (compA_again, dc'')
         \<and> map_of (components dc'') ''compA'' = Some compA_again
         \<and> map fst (components dc'') = [''compA'']"
    by auto
  moreover from registerComponent_replaces
    [of "example_client\<lparr>modelId := None\<rparr>" compA_again_ctor compA_again example_client]
    no_model device
  have "registerComponent compA_again_ctor (example_client\<lparr>modelId := None\<rparr>)
       = Inl (NoModelIdAssignedError ''dev-1'')"
    by simp
  ultimately show ?thesis using hyps by simp
qed

text \<open>
  The claim as stated fails: \<open>compA\<close> is registered with the writable property \<open>temp\<close>;
  registering a second component with the key \<open>compA\<close> succeeds and puts the new
  instance in the place of the first.
\<close>

theorem registerComponent_replaces_counterexample:
  "map_of (components example_client) ''compA'' = Some compA
   \<and> componentKey compA_again = ''compA''
   \<and> compA_again \<noteq> compA
   \<and> registerComponent compA_again_ctor example_client =
       Inr (compA_again, example_client\<lparr>components := [(''compA'', compA_again)]\<rparr>)"
  using reregistered by (simp add: example_client_def compA_again_def compA_def)

section \<open>Properties of the retry helper\<close>

lemma promise_catch_retryHandler:
  "promise_catch fresh p (retryHandler p a n) =
     ((case settles p of Some (Inl e) \<Rightarrow> [RetryAttemptFailed a n e] | other \<Rightarrow> []),
      \<lparr>promise_id = fresh, settles = settles p\<rparr>)"
  by (simp add: promise_catch_def retryHandler_def split: option.splits sum.splits)

lemma retry_loop_log:
  "fst (retry_loop p a n acc) =
     fst acc @ (case settles p of
                  Some (Inl e) \<Rightarrow> map (\<lambda>i. RetryAttemptFailed i n e) [a..n]
                | other \<Rightarrow> [])"
proof (induction p a n acc rule: retry_loop.induct)
  case (1 p a n acc)
  show ?case
  proof (cases "a \<le> n")
    case False
    then show ?thesis
      by (subst retry_loop.simps) (simp split: option.splits sum.splits)
  next
    case True
    define lg where "lg = (case settles p of
        Some (Inl e) \<Rightarrow> [RetryAttemptFailed a n e] | other \<Rightarrow> [])"
    define derived where
      "derived = \<lparr>promise_id = Suc (promise_id p) + length (snd acc), settles = settles p\<rparr>"
    have caught: "promise_catch (Suc (promise_id p) + length (snd acc)) p (retryHandler p a n)
        = (lg, derived)"
      by (simp add: promise_catch_retryHandler lg_def derived_def)
    from True caught have unfold: "retry_loop p a n acc =
        retry_loop p (a + 1) n (fst acc @ lg, snd acc @ [derived])"
      by (subst retry_loop.simps) simp
    from "1.IH" [OF True caught [symmetric]]
    have "fst (retry_loop p (a + 1) n (fst acc @ lg, snd acc @ [derived])) =
        (fst acc @ lg) @ (case settles p of
                  Some (Inl e) \<Rightarrow> map (\<lambda>i. RetryAttemptFailed i n e) [a + 1..n]
                | other \<Rightarrow> [])"
      by simp
    moreover from True have "[a..n] = a # [a + 1..n]"
      by (simp add: upto_rec1)
    ultimately show ?thesis
      unfolding unfold by (simp add: lg_def split: option.splits sum.splits)
  qed
qed

lemma retry_loop_derived:
  "map settles (snd (retry_loop p a n acc)) =
     map settles (snd acc) @ replicate (nat (n + 1 - a)) (settles p)"
proof (induction p a n acc rule: retry_loop.induct)
  case (1 p a n acc)
  show ?case
  proof (cases "a \<le> n")
    case False
    then show ?thesis
      by (subst retry_loop.simps) simp
  next
    case True
    define lg where "lg = (case settles p of
        Some (Inl e) \<Rightarrow> [RetryAttemptFailed a n e] | other \<Rightarrow> [])"
    define derived where
      "derived = \<lparr>promise_id = Suc (promise_id p) + length (snd acc), settles = settles p\<rparr>"
    have caught: "promise_catch (Suc (promise_id p) + length (snd acc)) p (retryHandler p a n)
        = (lg, derived)"
      by (simp add: promise_catch_retryHandler lg_def derived_def)
    from True caught have unfold: "retry_loop p a n acc =
        retry_loop p (a + 1) n (fst acc @ lg, snd acc @ [derived])"
      by (subst retry_loop.simps) simp
    from "1.IH" [OF True caught [symmetric]]
    have "map settles (snd (retry_loop p (a + 1) n (fst acc @ lg, snd acc @ [derived]))) =
        map settles (snd acc @ [derived]) @ replicate (nat (n + 1 - (a + 1))) (settles p)"
      by simp
    moreover from True have "nat (n + 1 - a) = Suc (nat (n + 1 - (a + 1)))"
      by simp
    ultimately show ?thesis
      unfolding unfold by (simp add: derived_def replicate_append_same)
  qed
qed

text \<open>
  Claim C4. \<open>retry p n\<close> returns \<open>p\<close> itself. The \<open>n\<close> promises that its \<open>catch\<close> calls
  make all settle as \<open>p\<close> settles, and when \<open>p\<close> rejects each handler only writes its
  log line. \<open>DeviceClient.create\<close> therefore observes the outcome of the one
  \<open>connect\<close> call it made: the world is as that single attempt left it, whatever the
  retry count.
\<close>

theorem retry_reuses_the_attempt:
  "fst (retry p n) = p
   \<and> map settles (snd (snd (retry p n))) = replicate (nat n) (settles p)
   \<and> fst (snd (retry p n)) =
       (case settles p of
          Some (Inl e) \<Rightarrow> map (\<lambda>i. RetryAttemptFailed i n e) [1..n]
        | other \<Rightarrow> [])
   \<and> fst (create connect retries w) = fst (connect w)
   \<and> fst (snd (create connect retries w)) = snd (connect w)"
proof -
  have "map settles (snd (retry_loop p 1 n ([], []))) = replicate (nat n) (settles p)"
    using retry_loop_derived [of p 1 n "([], [])"] by simp
  moreover have "fst (retry_loop p 1 n ([], [])) =
       (case settles p of
          Some (Inl e) \<Rightarrow> map (\<lambda>i. RetryAttemptFailed i n e) [1..n]
        | other \<Rightarrow> [])"
    using retry_loop_log [of p 1 n "([], [])"] by simp
  moreover have "fst (create connect retries w) = fst (connect w)
      \<and> fst (snd (create connect retries w)) = snd (connect w)"
    by (simp add: create_def retry_def case_prod_beta)
  ultimately show ?thesis by (simp add: retry_def)
qed

theorem retry_reuses_the_attempt_witness:
  "create unreachable_hub (Some 2) 0 =
     (Some (Inl (Thrown (JStr ''unreachable''))), 1,
      [RetryAttemptFailed 1 2 (Thrown (JStr ''unreachable'')),
       RetryAttemptFailed 2 2 (Thrown (JStr ''unreachable''))])
   \<and> fst (retry \<lparr>promise_id = 0, settles = Some (Inl TypeError) :: (error + unit) option\<rparr> 3)
       = \<lparr>promise_id = 0, settles = Some (Inl TypeError)\<rparr>
   \<and> map settles (snd (snd (retry \<lparr>promise_id = 0,
                                     settles = Some (Inl TypeError) :: (error + unit) option\<rparr> 3)))
       = [Some (Inl TypeError), Some (Inl TypeError), Some (Inl TypeError)]"
proof -
  have log: "snd (snd (create unreachable_hub (Some 2) 0)) =
      [RetryAttemptFailed 1 2 (Thrown (JStr ''unreachable'')),
       RetryAttemptFailed 2 2 (Thrown (JStr ''unreachable''))]"
    using retry_loop_log [of "\<lparr>promise_id = 0,
        settles = Some (Inl (Thrown (JStr ''unreachable''))) :: (error + unit) option\<rparr>" 1 2 "([], [])"]
    by (simp add: create_def retry_def unreachable_hub_def upto_rec1 case_prod_beta)
  note inst = retry_reuses_the_attempt [of
      "\<lparr>promise_id = 0, settles = Some (Inl TypeError) :: (error + unit) option\<rparr>" 3
      unreachable_hub "Some 2" 0]
  from inst have world: "fst (create unreachable_hub (Some 2) 0)
        = Some (Inl (Thrown (JStr ''unreachable'')))
      \<and> fst (snd (create unreachable_hub (Some 2) 0)) = 1"
    by (simp add: unreachable_hub_def)
  from inst have same: "fst (retry \<lparr>promise_id = 0,
        settles = Some (Inl TypeError) :: (error + unit) option\<rparr> 3)
       = \<lparr>promise_id = 0, settles = Some (Inl TypeError)\<rparr>
     \<and> map settles (snd (snd (retry \<lparr>promise_id = 0,
                                     settles = Some (Inl TypeError) :: (error + unit) option\<rparr> 3)))
       = [Some (Inl TypeError), Some (Inl TypeError), Some (Inl TypeError)]"
    by (simp add: numeral_3_eq_3)
  from world log have "create unreachable_hub (Some 2) 0 =
     (Some (Inl (Thrown (JStr ''unreachable''))), 1,
      [RetryAttemptFailed 1 2 (Thrown (JStr ''unreachable'')),
       RetryAttemptFailed 2 2 (Thrown (JStr ''unreachable''))])"
    by (metis prod.collapse)
  with same show ?thesis by simp
qed

section \<open>Properties of the connection lifecycle\<close>

lemma notify_effect:
  "connect_calls (notify obs s) =
     connect_calls s @ concat (map (\<lambda>ob. case ob of Reconnect m \<Rightarrow> [m] | External i \<Rightarrow> []) obs)"
  "disconnected_observers (notify obs s) = disconnected_observers s"
  "disconnected_buffer (notify obs s) = disconnected_buffer s"
  "completed (notify obs s) = completed s"
  by (induction obs s rule: notify.induct) (simp_all add: connect_call_def)

lemma connect_call_fields:
  "connect_calls (connect_call m s) = connect_calls s @ [m]"
  "disconnected_observers (connect_call m s) = disconnected_observers s"
  "disconnected_buffer (connect_call m s) = disconnected_buffer s"
  "completed (connect_call m s) = completed s"
  by (simp_all add: connect_call_def)

lemma replay_reconnect:
  "connect_calls (foldl (\<lambda>acc v. connect_call m acc) s vs)
     = connect_calls s @ replicate (length vs) m"
  "disconnected_observers (foldl (\<lambda>acc v. connect_call m acc) s vs) = disconnected_observers s"
  "disconnected_buffer (foldl (\<lambda>acc v. connect_call m acc) s vs) = disconnected_buffer s"
  "completed (foldl (\<lambda>acc v. connect_call m acc) s vs) = completed s"
proof (induction vs arbitrary: s)
  case Nil
  {
    case 1 show ?case by simp
  next
    case 2 show ?case by simp
  next
    case 3 show ?case by simp
  next
    case 4 show ?case by simp
  }
next
  case (Cons v vs)
  {
    case 1 show ?case
      by (simp add: Cons.IH(1) connect_call_fields replicate_append_same)
  next
    case 2 show ?case by (simp add: Cons.IH(2) connect_call_fields)
  next
    case 3 show ?case by (simp add: Cons.IH(3) connect_call_fields)
  next
    case 4 show ?case by (simp add: Cons.IH(4) connect_call_fields)
  }
qed

lemma replay_external: "foldl (\<lambda>acc v. acc) s vs = s"
  by (induction vs) simp_all

lemma subscribe_effect:
  "disconnected_observers (disconnected_subscribe ob s) = disconnected_observers s @ [ob]"
  "disconnected_buffer (disconnected_subscribe ob s) = disconnected_buffer s"
  "completed (disconnected_subscribe ob s) = completed s"
  "connect_calls (disconnected_subscribe (Reconnect m) s)
     = connect_calls s @ replicate (length (disconnected_buffer s)) m"
  "connect_calls (disconnected_subscribe (External i) s) = connect_calls s"
  by (cases ob; simp add: disconnected_subscribe_def replay_reconnect replay_external)+

lemma reconnect_observers_append:
  "reconnect_observers (s\<lparr>disconnected_observers := disconnected_observers s @ [ob]\<rparr>)
     = reconnect_observers s @ (case ob of Reconnect m \<Rightarrow> [m] | External i \<Rightarrow> [])"
  by (simp add: reconnect_observers_def)

lemma reconnect_observers_cong:
  "disconnected_observers s' = disconnected_observers s \<Longrightarrow>
   reconnect_observers s' = reconnect_observers s"
  by (simp add: reconnect_observers_def)

lemma settle_resolved:
  assumes "i < length (in_flight s)"
  shows "disconnected_observers (connect_settle i Resolved s)
           = disconnected_observers s @ [Reconnect (fst (in_flight s ! i))]"
    and "completed (connect_settle i Resolved s) = Suc (completed s)"
    and "connect_calls (connect_settle i Resolved s)
           = connect_calls s @ replicate (length (disconnected_buffer s)) (fst (in_flight s ! i))"
    and "disconnected_buffer (connect_settle i Resolved s) = disconnected_buffer s"
  using assms
  by (simp_all add: connect_settle_def Let_def subscribe_effect case_prod_beta)

lemma settle_other:
  assumes "r \<noteq> Resolved \<or> \<not> i < length (in_flight s)"
  shows "disconnected_observers (connect_settle i r s) = disconnected_observers s"
    and "completed (connect_settle i r s) = completed s"
    and "disconnected_buffer (connect_settle i r s) = disconnected_buffer s"
  using assms
  by (cases r; simp add: connect_settle_def Let_def case_prod_beta)+

lemma step_observers:
  "\<exists>added. disconnected_observers (lifecycle_step e s) = disconnected_observers s @ added"
proof (cases e)
  case (Call_connect m)
  then show ?thesis by (simp add: connect_call_def)
next
  case (Settle_connect i r)
  show ?thesis
  proof (cases "r = Resolved \<and> i < length (in_flight s)")
    case True
    then show ?thesis by (simp add: Settle_connect settle_resolved)
  next
    case False
    then have "disconnected_observers (connect_settle i r s) = disconnected_observers s"
      by (intro settle_other) auto
    then show ?thesis by (simp add: Settle_connect)
  qed
next
  case (Disconnected v)
  then show ?thesis by (simp add: disconnected_next_def notify_effect)
next
  case (Subscribe_external i)
  then show ?thesis by (simp add: subscribe_effect)
qed

lemma step_invariant:
  assumes "length (reconnect_observers s) = completed s"
    and "length (disconnected_buffer s) \<le> 1"
  shows "length (reconnect_observers (lifecycle_step e s)) = completed (lifecycle_step e s)
         \<and> length (disconnected_buffer (lifecycle_step e s)) \<le> 1"
proof (cases e)
  case (Call_connect m)
  with assms show ?thesis by (simp add: connect_call_def reconnect_observers_def)
next
  case (Settle_connect i r)
  show ?thesis
  proof (cases "r = Resolved \<and> i < length (in_flight s)")
    case True
    with assms show ?thesis
      by (simp add: Settle_connect settle_resolved reconnect_observers_def)
  next
    case False
    then have "disconnected_observers (connect_settle i r s) = disconnected_observers s"
      and "completed (connect_settle i r s) = completed s"
      and "disconnected_buffer (connect_settle i r s) = disconnected_buffer s"
      by (intro settle_other; auto)+
    with assms show ?thesis by (simp add: Settle_connect reconnect_observers_def)
  qed
next
  case (Disconnected v)
  with assms show ?thesis
    by (simp add: disconnected_next_def notify_effect reconnect_observers_def)
next
  case (Subscribe_external i)
  with assms show ?thesis
    by (simp add: subscribe_effect reconnect_observers_def)
qed

lemma run_invariant:
  "length (reconnect_observers (lifecycle_run evs initial_connection))
     = completed (lifecycle_run evs initial_connection)
   \<and> length (disconnected_buffer (lifecycle_run evs initial_connection)) \<le> 1"
proof (induction evs rule: rev_induct)
  case Nil
  show ?case by (simp add: lifecycle_run_def initial_connection_def reconnect_observers_def)
next
  case (snoc e evs)
  have "lifecycle_run (evs @ [e]) initial_connection
      = lifecycle_step e (lifecycle_run evs initial_connection)"
    by (simp add: lifecycle_run_def)
  with snoc.IH step_invariant [of "lifecycle_run evs initial_connection" e]
  show ?case by simp
qed

lemma step_buffer:
  "disconnected_buffer (lifecycle_step e s) =
     (case e of Disconnected v \<Rightarrow> [v] | other \<Rightarrow> disconnected_buffer s)"
proof (cases e)
  case (Call_connect m)
  then show ?thesis by (simp add: connect_call_fields)
next
  case (Settle_connect i r)
  show ?thesis
  proof (cases "r = Resolved \<and> i < length (in_flight s)")
    case True
    then show ?thesis by (simp add: Settle_connect settle_resolved)
  next
    case False
    then have "disconnected_buffer (connect_settle i r s) = disconnected_buffer s"
      by (intro settle_other) auto
    then show ?thesis by (simp add: Settle_connect)
  qed
next
  case (Disconnected v)
  then show ?thesis by (simp add: disconnected_next_def notify_effect)
next
  case (Subscribe_external i)
  then show ?thesis by (simp add: subscribe_effect)
qed

lemma run_buffer:
  "(disconnected_buffer (lifecycle_run evs initial_connection) \<noteq> [])
     = (\<exists>v. Disconnected v \<in> set evs)"
proof (induction evs rule: rev_induct)
  case Nil
  show ?case by (simp add: lifecycle_run_def initial_connection_def)
next
  case (snoc e evs)
  have "lifecycle_run (evs @ [e]) initial_connection
      = lifecycle_step e (lifecycle_run evs initial_connection)"
    by (simp add: lifecycle_run_def)
  then have "disconnected_buffer (lifecycle_run (evs @ [e]) initial_connection) =
      (case e of
         Disconnected v \<Rightarrow> [v]
       | other \<Rightarrow> disconnected_buffer (lifecycle_run evs initial_connection))"
    by (simp only: step_buffer)
  with snoc.IH show ?case
    by (cases e) auto
qed

text \<open>
  Claim C8, as the code has it. In every state that the client reaches from its
  start, the number of reconnect subscriptions on \<open>disconnected$\<close> is the number of
  executions of \<open>connect\<close> that ran to their end: each of them adds one, an
  execution that rejects adds none, and no step removes a subscription. A disconnect
  event therefore starts one call of \<open>connect\<close> per subscription, that is as many
  calls as executions of \<open>connect\<close> have completed. And once a disconnect has been
  observed, the subscription that a completing execution adds is handed the replayed
  value at once and starts a further call of \<open>connect\<close>; before any disconnect it
  starts none.
\<close>

theorem reconnect_subscriptions_accumulate:
  "let s = lifecycle_run evs initial_connection in
     length (reconnect_observers s) = completed s
     \<and> (\<exists>added. disconnected_observers (lifecycle_step e s) = disconnected_observers s @ added)
     \<and> connect_calls (disconnected_next v s) = connect_calls s @ reconnect_observers s
     \<and> length (connect_calls (disconnected_next v s)) = length (connect_calls s) + completed s
     \<and> (i < length (in_flight s) \<longrightarrow>
          disconnected_observers (connect_settle i Resolved s)
            = disconnected_observers s @ [Reconnect (fst (in_flight s ! i))]
          \<and> completed (connect_settle i Resolved s) = Suc (completed s)
          \<and> ((\<exists>v'. Disconnected v' \<in> set evs) \<longrightarrow>
                connect_calls (connect_settle i Resolved s)
                  = connect_calls s @ [fst (in_flight s ! i)])
          \<and> (\<not> (\<exists>v'. Disconnected v' \<in> set evs) \<longrightarrow>
                connect_calls (connect_settle i Resolved s) = connect_calls s))
     \<and> (r \<noteq> Resolved \<longrightarrow>
          disconnected_observers (connect_settle i r s) = disconnected_observers s
          \<and> completed (connect_settle i r s) = completed s)"
proof -
  define s where "s = lifecycle_run evs initial_connection"
  have count: "length (reconnect_observers s) = completed s"
    and buffer: "length (disconnected_buffer s) \<le> 1"
    using run_invariant [of evs] by (simp_all add: s_def)
  have observed: "(disconnected_buffer s \<noteq> []) = (\<exists>v'. Disconnected v' \<in> set evs)"
    unfolding s_def by (rule run_buffer)
  have grows: "\<exists>added. disconnected_observers (lifecycle_step e s)
      = disconnected_observers s @ added"
    by (rule step_observers)
  have fired: "connect_calls (disconnected_next v s) = connect_calls s @ reconnect_observers s"
    by (simp add: disconnected_next_def notify_effect reconnect_observers_def)
  with count have fired_count:
    "length (connect_calls (disconnected_next v s)) = length (connect_calls s) + completed s"
    by simp
  have settle: "disconnected_observers (connect_settle i Resolved s)
            = disconnected_observers s @ [Reconnect (fst (in_flight s ! i))]
          \<and> completed (connect_settle i Resolved s) = Suc (completed s)
          \<and> ((\<exists>v'. Disconnected v' \<in> set evs) \<longrightarrow>
                connect_calls (connect_settle i Resolved s)
                  = connect_calls s @ [fst (in_flight s ! i)])
          \<and> (\<not> (\<exists>v'. Disconnected v' \<in> set evs) \<longrightarrow>
                connect_calls (connect_settle i Resolved s) = connect_calls s)"
    if valid: "i < length (in_flight s)"
  proof -
    have replayed: "length (disconnected_buffer s) = 1" if "\<exists>v'. Disconnected v' \<in> set evs"
    proof -
      from that observed have "disconnected_buffer s \<noteq> []" by simp
      with buffer show ?thesis by (cases "disconnected_buffer s") simp_all
    qed
    have empty: "disconnected_buffer s = []" if "\<not> (\<exists>v'. Disconnected v' \<in> set evs)"
      using that observed by simp
    from valid replayed empty show ?thesis
      by (simp add: settle_resolved)
  qed
  have rejected: "disconnected_observers (connect_settle i r s) = disconnected_observers s
      \<and> completed (connect_settle i r s) = completed s"
    if "r \<noteq> Resolved"
    using that by (simp add: settle_other)
  from count grows fired fired_count settle rejected show ?thesis
    unfolding Let_def s_def [symmetric] by simp
qed

lemma reconnected_once_state:
  "in_flight reconnected_once = [(''model'', False)]"
  "connect_calls reconnected_once = [''model'', ''model'']"
  "disconnected_observers reconnected_once = [Reconnect ''model'']"
  "completed reconnected_once = 1"
  by (simp_all add: reconnected_once_def lifecycle_run_def initial_connection_def
      connect_call_def connect_settle_def disconnected_subscribe_def disconnected_next_def)

theorem reconnect_subscriptions_accumulate_witness:
  "0 < length (in_flight reconnected_once)
   \<and> Disconnected None
        \<in> set [Call_connect ''model'', Settle_connect 0 Resolved, Disconnected None]
   \<and> completed reconnected_once = 1
   \<and> connect_calls reconnected_once = [''model'', ''model'']
   \<and> connect_calls (disconnected_next None reconnected_once) = [''model'', ''model'', ''model'']
   \<and> disconnected_observers (connect_settle 0 Resolved reconnected_once)
       = [Reconnect ''model'', Reconnect ''model'']
   \<and> completed (connect_settle 0 Resolved reconnected_once) = 2
   \<and> connect_calls (connect_settle 0 Resolved reconnected_once)
       = [''model'', ''model'', ''model'']"
proof -
  have observers: "reconnect_observers reconnected_once = [''model'']"
    by (simp add: reconnect_observers_def reconnected_once_state)
  from reconnect_subscriptions_accumulate
    [of "[Call_connect ''model'', Settle_connect 0 Resolved, Disconnected None]"
      "Disconnected None" None 0 Resolved]
  show ?thesis
    unfolding Let_def reconnected_once_def [symmetric]
    by (simp add: reconnected_once_state observers)
qed

text \<open>
  The claim as stated fails for a call of \<open>connect\<close> that rejects, as a reconnect to an
  unreachable hub does at \<open>open()\<close>: after this one call there is no subscription, and a
  disconnect event starts no call of \<open>connect\<close>.
\<close>

theorem reconnect_subscriptions_accumulate_counterexample:
  "connect_calls rejected_once = [''model'']
   \<and> disconnected_observers rejected_once = []
   \<and> connect_calls (disconnected_next None rejected_once) = [''model'']"
  by (simp add: rejected_once_def lifecycle_run_def initial_connection_def
      connect_call_def connect_settle_def disconnected_next_def)

end
